theory Spec2Isabelle
  imports Main "HOL-Library.Word"
begin

section \<open>Domain model (package domain)\<close>

text \<open>
  A \<^verbatim>\<open>time.Time\<close> is modelled as an instant on the integer line (nanoseconds since the
  epoch); \<^verbatim>\<open>t.Before(u)\<close> is \<open>t < u\<close>. Go's \<^verbatim>\<open>string\<close> is a byte sequence and
  \<^verbatim>\<open>len\<close> counts bytes, which is what \<^typ>\<open>string\<close> (a list of 8-bit characters) and
  \<^const>\<open>length\<close> are. Go's \<^verbatim>\<open>int\<close> is taken as the 64-bit signed integer it is on
  amd64 and arm64: a \<^typ>\<open>64 word\<close> read with \<^const>\<open>sint\<close>, whose addition wraps.
  The gorm-only relation fields of both structs are left out. Fields of \<open>Post\<close> whose
  names \<open>Comment\<close> also has carry the prefix \<open>post_\<close>.
\<close>

type_synonym time = int
type_synonym go_int = "64 word"

record Post =
  post_ID :: string
  Title :: string
  post_Content :: string
  post_AuthorID :: string
  CommentsEnabled :: bool
  post_CreatedAt :: time

record Comment =
  ID :: string
  PostID :: string
  ParentID :: "string option"
  AuthorID :: string
  Content :: string
  CreatedAt :: time

section \<open>Package storage: pagination arguments and failures\<close>

record PaginationArgs =
  Limit :: go_int
  Cursor :: "string option"

text \<open>
  The errors \<^verbatim>\<open>CreateComment\<close> returns are \<^verbatim>\<open>errors.New\<close> values told apart by
  their message only; one constructor stands for each message.
\<close>

datatype error =
  PostNotFound | CommentsDisabled | ContentTooLong | ContentEmpty | ParentNotFound

fun message :: "error \<Rightarrow> string" where
  "message PostNotFound = ''post not found''"
| "message CommentsDisabled = ''comments are disabled for this post''"
| "message ContentTooLong = ''comment content is too long''"
| "message ContentEmpty = ''comment content cannot be empty''"
| "message ParentNotFound = ''parent comment not found''"

text \<open>The specification's \<open>InvalidBody\<close> covers both messages about the content.\<close>

definition InvalidBody :: "error \<Rightarrow> bool" where
  "InvalidBody e = (e = ContentTooLong \<or> e = ContentEmpty)"

text \<open>A run-time panic of a slice expression whose bounds are out of range.\<close>

datatype panic = SliceBoundsOutOfRange

section \<open>The standard library: strings.TrimSpace, sort.Slice, slice expressions\<close>

text \<open>
  \<^verbatim>\<open>strings.TrimSpace\<close> removes leading and trailing white space as Unicode defines
  it, on the UTF-8 encoding: the six ASCII characters tab, line feed, vertical tab, form
  feed, carriage return and space, and the encodings of U+0085, U+00A0, U+1680,
  U+2000 to U+200A, U+2028, U+2029, U+202F, U+205F and U+3000. A byte that does not start
  one of these encodings is not white space (an invalid sequence decodes to U+FFFD).
\<close>

definition asciiSpace :: "char \<Rightarrow> bool" where
  "asciiSpace c = (let n = (of_char c :: nat) in (9 \<le> n \<and> n \<le> 13) \<or> n = 32)"

fun space_rune :: "string \<Rightarrow> bool" where
  "space_rune [a] = asciiSpace a"
| "space_rune [a, b] =
     ((of_char a :: nat) = 0xC2 \<and> ((of_char b :: nat) = 0x85 \<or> (of_char b :: nat) = 0xA0))"
| "space_rune [a, b, c] =
     (let x = (of_char a :: nat); y = (of_char b :: nat); z = (of_char c :: nat) in
        (x = 0xE1 \<and> y = 0x9A \<and> z = 0x80) \<or>
        (x = 0xE2 \<and> y = 0x80 \<and> ((0x80 \<le> z \<and> z \<le> 0x8A) \<or> z = 0xA8 \<or> z = 0xA9 \<or> z = 0xAF)) \<or>
        (x = 0xE2 \<and> y = 0x81 \<and> z = 0x9F) \<or>
        (x = 0xE3 \<and> y = 0x80 \<and> z = 0x80))"
| "space_rune _ = False"

text \<open>The bytes a white-space rune can start with.\<close>

definition space_lead :: "char \<Rightarrow> bool" where
  "space_lead a = (asciiSpace a \<or> (of_char a :: nat) \<in> {0xC2, 0xE1, 0xE2, 0xE3})"


text \<open>The width in bytes of the white-space rune a string starts (ends) with, 0 if none.\<close>

definition space_prefix :: "string \<Rightarrow> nat" where
  "space_prefix s =
     (if space_rune (take 1 s) then 1
      else if space_rune (take 2 s) then 2
      else if space_rune (take 3 s) then 3 else 0)"

definition space_suffix :: "string \<Rightarrow> nat" where
  "space_suffix s =
     (if space_rune (drop (length s - 1) s) then 1
      else if space_rune (drop (length s - 2) s) then 2
      else if space_rune (drop (length s - 3) s) then 3 else 0)"

function TrimLeftSpace :: "string \<Rightarrow> string" where
  "TrimLeftSpace s =
     (if space_prefix s = 0 then s else TrimLeftSpace (drop (space_prefix s) s))"
  by pat_completeness auto
termination
proof (relation "measure length")
  show "wf (measure length)" by simp
next
  fix s :: string
  assume "space_prefix s \<noteq> 0"
  then have "s \<noteq> []" by (auto simp: space_prefix_def)
  with \<open>space_prefix s \<noteq> 0\<close> show "(drop (space_prefix s) s, s) \<in> measure length"
    by simp
qed

function TrimRightSpace :: "string \<Rightarrow> string" where
  "TrimRightSpace s =
     (if space_suffix s = 0 then s else TrimRightSpace (take (length s - space_suffix s) s))"
  by pat_completeness auto
termination
proof (relation "measure length")
  show "wf (measure length)" by simp
next
  fix s :: string
  assume "space_suffix s \<noteq> 0"
  then have "s \<noteq> []" by (auto simp: space_suffix_def)
  with \<open>space_suffix s \<noteq> 0\<close> show "(take (length s - space_suffix s) s, s) \<in> measure length"
    by simp
qed

declare TrimLeftSpace.simps [simp del] TrimRightSpace.simps [simp del]

definition TrimSpace :: "string \<Rightarrow> string" where
  "TrimSpace s = TrimRightSpace (TrimLeftSpace s)"

text \<open>
  \<^verbatim>\<open>sort.Slice(xs, func(i, j) bool { return xs[i].CreatedAt.Before(xs[j].CreatedAt) })\<close>
  orders by creation time alone. It is modelled by the stable insertion sort
  \<^const>\<open>sort_key\<close>, which is what Go runs on a slice of at most 12 elements; on a longer
  slice Go's pattern-defeating quicksort returns a permutation ordered by the same key in
  which elements of equal time may stand in another order. The general theorems below
  use of the sort only that it returns a permutation of its argument in ascending order
  of creation time; the order among equal times matters on the example stores alone,
  which hold at most three comments.
\<close>

definition sortByCreatedAt :: "Comment list \<Rightarrow> Comment list" where
  "sortByCreatedAt xs = sort_key CreatedAt xs"

text \<open>
  The slice expression \<^verbatim>\<open>xs[lo:hi]\<close> panics unless \<open>0 \<le> lo \<le> hi \<le> cap(xs)\<close>. Every
  slice expression of the program is reached with \<open>hi \<le> len(xs)\<close> already established, so
  the length stands for the capacity.
\<close>

definition slice :: "'a list \<Rightarrow> int \<Rightarrow> int \<Rightarrow> panic + 'a list" where
  "slice xs lo hi =
     (if 0 \<le> lo \<and> lo \<le> hi \<and> hi \<le> int (length xs)
      then Inr (take (nat hi - nat lo) (drop (nat lo) xs))
      else Inl SliceBoundsOutOfRange)"

section \<open>The in-memory store (package inmemory)\<close>

text \<open>
  The four maps of \<^verbatim>\<open>Store\<close>. The maps hold pointers; the model holds the values the
  pointers lead to, so a write through a stored pointer (\<^verbatim>\<open>ToggleComments\<close>) is an update
  of the map. The mutex serialises the methods: each is one atomic step on the store.
  \<^verbatim>\<open>uuid.NewString()\<close> and \<^verbatim>\<open>time.Now().UTC()\<close> are inputs of the step.
\<close>

record Store =
  posts :: "string \<rightharpoonup> Post"
  comments :: "string \<rightharpoonup> Comment"
  commentsByPost :: "string \<rightharpoonup> string list"
  commentsByParent :: "string \<rightharpoonup> string list"

definition New :: Store where
  "New = \<lparr>posts = Map.empty, comments = Map.empty,
          commentsByPost = Map.empty, commentsByParent = Map.empty\<rparr>"

definition CreatePost :: "Store \<Rightarrow> string \<Rightarrow> time \<Rightarrow> Post \<Rightarrow> Post \<times> Store" where
  "CreatePost s uuid now post =
     (let post' = post\<lparr>post_ID := uuid, post_CreatedAt := now\<rparr>
      in (post', s\<lparr>posts := (posts s)(uuid \<mapsto> post')\<rparr>))"

definition GetPostByID :: "Store \<Rightarrow> string \<Rightarrow> Post option" where
  "GetPostByID s postID = posts s postID"

definition ToggleComments :: "Store \<Rightarrow> string \<Rightarrow> bool \<Rightarrow> Post option \<times> Store" where
  "ToggleComments s postID enable =
     (case posts s postID of
        None \<Rightarrow> (None, s)
      | Some post \<Rightarrow>
          (let post' = post\<lparr>CommentsEnabled := enable\<rparr>
           in (Some post', s\<lparr>posts := (posts s)(postID \<mapsto> post')\<rparr>)))"

text \<open>\<^verbatim>\<open>append(m[k], v)\<close>: a missing key reads as the nil slice.\<close>

definition append_at :: "(string \<rightharpoonup> string list) \<Rightarrow> string \<Rightarrow> string \<Rightarrow> (string \<rightharpoonup> string list)" where
  "append_at m k v = m(k \<mapsto> (case m k of None \<Rightarrow> [] | Some vs \<Rightarrow> vs) @ [v])"

definition CreateComment :: "Store \<Rightarrow> string \<Rightarrow> time \<Rightarrow> Comment \<Rightarrow> (error + Comment) \<times> Store" where
  "CreateComment s uuid now comment =
     (case posts s (PostID comment) of
        None \<Rightarrow> (Inl PostNotFound, s)
      | Some post \<Rightarrow>
          if \<not> CommentsEnabled post then (Inl CommentsDisabled, s)
          else if length (Content comment) > 2000 then (Inl ContentTooLong, s)
          else if TrimSpace (Content comment) = [] then (Inl ContentEmpty, s)
          else if (case ParentID comment of
                     None \<Rightarrow> False
                   | Some p \<Rightarrow> comments s p = None) then (Inl ParentNotFound, s)
          else
            (let comment' = comment\<lparr>ID := uuid, CreatedAt := now\<rparr>;
                 s' = s\<lparr>comments := (comments s)(uuid \<mapsto> comment')\<rparr>
             in (Inr comment',
                 (case ParentID comment of
                    None \<Rightarrow> s'\<lparr>commentsByPost := append_at (commentsByPost s') (PostID comment) uuid\<rparr>
                  | Some p \<Rightarrow> s'\<lparr>commentsByParent := append_at (commentsByParent s') p uuid\<rparr>))))"

definition GetCommentByID :: "Store \<Rightarrow> string \<Rightarrow> Comment option" where
  "GetCommentByID s commentID = comments s commentID"

text \<open>
  The loop of \<^verbatim>\<open>paginateComments\<close> that looks the cursor up: the index of the first
  comment with that identifier.
\<close>

fun cursor_index :: "string \<Rightarrow> Comment list \<Rightarrow> nat option" where
  "cursor_index cur [] = None"
| "cursor_index cur (c # cs) =
     (if ID c = cur then Some 0 else map_option Suc (cursor_index cur cs))"

definition start_index :: "string option \<Rightarrow> Comment list \<Rightarrow> nat" where
  "start_index cursor allComments =
     (case cursor of
        None \<Rightarrow> 0
      | Some cur \<Rightarrow> (case cursor_index cur allComments of None \<Rightarrow> 0 | Some i \<Rightarrow> i + 1))"

text \<open>The first loop and the sort of \<^verbatim>\<open>paginateComments\<close>: the ordered candidates.\<close>

definition lookup_all :: "Store \<Rightarrow> string list \<Rightarrow> Comment list" where
  "lookup_all s ids = List.map_filter (comments s) ids"

definition candidates :: "Store \<Rightarrow> string list \<Rightarrow> Comment list" where
  "candidates s ids = sortByCreatedAt (lookup_all s ids)"

definition paginateComments :: "Store \<Rightarrow> string list \<Rightarrow> PaginationArgs \<Rightarrow> panic + Comment list" where
  "paginateComments s ids args =
     (let allComments = candidates s ids;
          startIndex = start_index (Cursor args) allComments
      in if startIndex \<ge> length allComments then Inr []
         else
           (let endIndex = sint (word_of_nat startIndex + Limit args);
                endIndex' = (if endIndex > int (length allComments)
                             then int (length allComments) else endIndex)
            in slice allComments (int startIndex) endIndex'))"

definition GetCommentsByPostID :: "Store \<Rightarrow> string \<Rightarrow> PaginationArgs \<Rightarrow> panic + Comment list" where
  "GetCommentsByPostID s postID args =
     (case commentsByPost s postID of
        None \<Rightarrow> Inr []
      | Some commentIDs \<Rightarrow> paginateComments s commentIDs args)"

definition GetCommentsByParentID :: "Store \<Rightarrow> string \<Rightarrow> PaginationArgs \<Rightarrow> panic + Comment list" where
  "GetCommentsByParentID s parentID args =
     (case commentsByParent s parentID of
        None \<Rightarrow> Inr []
      | Some commentIDs \<Rightarrow> paginateComments s commentIDs args)"

text \<open>
  \<^verbatim>\<open>GetCommentsByParentIDs\<close> writes \<^verbatim>\<open>results[pID]\<close> for each requested parent in
  turn. \<open>children_of\<close> is the body of its loop: the children of one parent, looked up
  and sorted, where a parent the index does not hold reads as the nil slice.
\<close>

definition children_of :: "Store \<Rightarrow> string \<Rightarrow> Comment list" where
  "children_of s pID =
     candidates s (case commentsByParent s pID of None \<Rightarrow> [] | Some childIDs \<Rightarrow> childIDs)"

fun GetCommentsByParentIDs_loop ::
  "Store \<Rightarrow> string list \<Rightarrow> (string \<rightharpoonup> Comment list) \<Rightarrow> (string \<rightharpoonup> Comment list)" where
  "GetCommentsByParentIDs_loop s [] results = results"
| "GetCommentsByParentIDs_loop s (pID # rest) results =
     GetCommentsByParentIDs_loop s rest (results(pID \<mapsto> children_of s pID))"

definition GetCommentsByParentIDs :: "Store \<Rightarrow> string list \<Rightarrow> (string \<rightharpoonup> Comment list)" where
  "GetCommentsByParentIDs s parentIDs = GetCommentsByParentIDs_loop s parentIDs Map.empty"

section \<open>The PostgreSQL store (package postgres)\<close>

text \<open>
  The database is its two tables, each the list of its rows in insertion order. A gorm
  call is modelled by the SQL statement it issues: \<^verbatim>\<open>First(&x, "id = ?", k)\<close> finds the
  row with that primary key or reports \<^verbatim>\<open>ErrRecordNotFound\<close>; \<^verbatim>\<open>Where\<close> filters,
  \<^verbatim>\<open>Order("created_at ASC")\<close> sorts by creation time, \<^verbatim>\<open>Limit(n)\<close> keeps the first
  \<open>n\<close> rows and is dropped from the statement when \<open>n\<close> is negative. A statement the
  server refuses (a lost connection, identifier text that is not a uuid) is outside the
  model. The drafts the resolver builds carry an empty identifier and the zero time, so
  the insert takes both from the database defaults, which are inputs here.
\<close>

record DB =
  posts_table :: "Post list"
  comments_table :: "Comment list"

definition first_post :: "DB \<Rightarrow> string \<Rightarrow> Post option" where
  "first_post db k = find (\<lambda>p. post_ID p = k) (posts_table db)"

definition first_comment :: "DB \<Rightarrow> string \<Rightarrow> Comment option" where
  "first_comment db k = find (\<lambda>c. ID c = k) (comments_table db)"

definition count_comments :: "DB \<Rightarrow> string \<Rightarrow> nat" where
  "count_comments db k = length (filter (\<lambda>c. ID c = k) (comments_table db))"

definition sql_limit :: "go_int \<Rightarrow> 'a list \<Rightarrow> 'a list" where
  "sql_limit n rows = (if sint n < 0 then rows else take (nat (sint n)) rows)"

definition pg_CreateComment :: "DB \<Rightarrow> string \<Rightarrow> time \<Rightarrow> Comment \<Rightarrow> (error + Comment) \<times> DB" where
  "pg_CreateComment db uuid now comment =
     (if length (Content comment) > 2000 then (Inl ContentTooLong, db)
      else if TrimSpace (Content comment) = [] then (Inl ContentEmpty, db)
      else
        (case first_post db (PostID comment) of
           None \<Rightarrow> (Inl PostNotFound, db)
         | Some post \<Rightarrow>
             if \<not> CommentsEnabled post then (Inl CommentsDisabled, db)
             else if (case ParentID comment of
                        None \<Rightarrow> False
                      | Some p \<Rightarrow> count_comments db p = 0) then (Inl ParentNotFound, db)
             else
               (let comment' = comment\<lparr>ID := uuid, CreatedAt := now\<rparr>
                in (Inr comment', db\<lparr>comments_table := comments_table db @ [comment']\<rparr>))))"

text \<open>
  Both paginated queries share their shape: the rows of the listing, restricted to those
  created after the cursor's comment when the cursor names a comment of the table (any
  comment: the lookup is by identifier alone), in creation order, cut at the limit.
\<close>

definition pg_page :: "DB \<Rightarrow> Comment list \<Rightarrow> PaginationArgs \<Rightarrow> Comment list" where
  "pg_page db rows args =
     (let rows' =
        (case Cursor args of
           None \<Rightarrow> rows
         | Some cur \<Rightarrow>
             (case first_comment db cur of
                None \<Rightarrow> rows
              | Some cursorComment \<Rightarrow>
                  filter (\<lambda>c. CreatedAt c > CreatedAt cursorComment) rows))
      in sql_limit (Limit args) (sortByCreatedAt rows'))"

definition pg_GetCommentsByPostID :: "DB \<Rightarrow> string \<Rightarrow> PaginationArgs \<Rightarrow> Comment list" where
  "pg_GetCommentsByPostID db postID args =
     pg_page db (filter (\<lambda>c. PostID c = postID \<and> ParentID c = None) (comments_table db)) args"

definition pg_GetCommentsByParentID :: "DB \<Rightarrow> string \<Rightarrow> PaginationArgs \<Rightarrow> Comment list" where
  "pg_GetCommentsByParentID db parentID args =
     pg_page db (filter (\<lambda>c. ParentID c = Some parentID) (comments_table db)) args"

text \<open>
  \<^verbatim>\<open>GetCommentsByParentIDs\<close> groups the rows one query returns. The statement orders by
  parent first and creation time second; after grouping by parent only the order by
  creation time is left, which is the order modelled.
\<close>

fun pg_group :: "Comment list \<Rightarrow> (string \<rightharpoonup> Comment list) \<Rightarrow> (string \<rightharpoonup> Comment list)" where
  "pg_group [] result = result"
| "pg_group (c # cs) result =
     (case ParentID c of
        None \<Rightarrow> pg_group cs result
      | Some p \<Rightarrow>
          pg_group cs (result(p \<mapsto> (case result p of None \<Rightarrow> [] | Some xs \<Rightarrow> xs) @ [c])))"

definition pg_GetCommentsByParentIDs :: "DB \<Rightarrow> string list \<Rightarrow> (string \<rightharpoonup> Comment list)" where
  "pg_GetCommentsByParentIDs db parentIDs =
     pg_group
       (sortByCreatedAt
          (filter (\<lambda>c. case ParentID c of None \<Rightarrow> False | Some p \<Rightarrow> p \<in> set parentIDs)
             (comments_table db)))
       Map.empty"

section \<open>The order of the checks, as the specification words it\<close>

text \<open>
  The four preconditions of a draft on the in-memory store, and the error of the first
  one violated in the order post, flag, body, parent.
\<close>

datatype violation = NoPost | Disabled | BadBody | NoParent

fun violation_of :: "error \<Rightarrow> violation" where
  "violation_of PostNotFound = NoPost"
| "violation_of CommentsDisabled = Disabled"
| "violation_of ContentTooLong = BadBody"
| "violation_of ContentEmpty = BadBody"
| "violation_of ParentNotFound = NoParent"

definition post_exists :: "Store \<Rightarrow> Comment \<Rightarrow> bool" where
  "post_exists s c = (posts s (PostID c) \<noteq> None)"

definition post_enabled :: "Store \<Rightarrow> Comment \<Rightarrow> bool" where
  "post_enabled s c = (case posts s (PostID c) of None \<Rightarrow> False | Some p \<Rightarrow> CommentsEnabled p)"

definition body_ok :: "Comment \<Rightarrow> bool" where
  "body_ok c = (TrimSpace (Content c) \<noteq> [] \<and> length (Content c) \<le> 2000)"

definition parent_ok :: "Store \<Rightarrow> Comment \<Rightarrow> bool" where
  "parent_ok s c = (case ParentID c of None \<Rightarrow> True | Some p \<Rightarrow> comments s p \<noteq> None)"

definition first_violation :: "Store \<Rightarrow> Comment \<Rightarrow> violation option" where
  "first_violation s c =
     (if \<not> post_exists s c then Some NoPost
      else if \<not> post_enabled s c then Some Disabled
      else if \<not> body_ok c then Some BadBody
      else if \<not> parent_ok s c then Some NoParent
      else None)"

definition outcome :: "error + 'a \<Rightarrow> violation option" where
  "outcome r = (case r of Inl e \<Rightarrow> Some (violation_of e) | Inr _ \<Rightarrow> None)"

definition fails_with :: "(error \<Rightarrow> bool) \<Rightarrow> error + 'a \<Rightarrow> bool" where
  "fails_with P r = (case r of Inl e \<Rightarrow> P e | Inr _ \<Rightarrow> False)"

text \<open>
  The number of characters of a well-formed UTF-8 string, as the specification counts a
  body: its bytes that are not continuation bytes.
\<close>

definition rune_count :: "string \<Rightarrow> nat" where
  "rune_count s = length (filter (\<lambda>c. \<not> (0x80 \<le> (of_char c :: nat) \<and> (of_char c :: nat) < 0xC0)) s)"


section \<open>The resolvers (package graph)\<close>

text \<open>
  The connection types of the schema. \<^verbatim>\<open>Children\<close> and \<^verbatim>\<open>Comments\<close> share everything
  after the call of the store: \<open>connection\<close> is that shared part. The resolvers are
  modelled over the in-memory store, whose listings return no error.
\<close>

record PageInfo =
  HasNextPage :: bool
  EndCursor :: "string option"

record CommentEdge =
  Node :: Comment
  Cursor_of :: string

record CommentConnection =
  Edges :: "CommentEdge list"
  PageInfo :: PageInfo

definition connection :: "Comment list \<Rightarrow> go_int \<Rightarrow> panic + CommentConnection" where
  "connection listed l =
     (let hasNextPage = (int (length listed) > sint l) in
      case (if hasNextPage then slice listed 0 (sint l) else Inr listed) of
        Inl p \<Rightarrow> Inl p
      | Inr listed' \<Rightarrow>
          (let edges = map (\<lambda>c. \<lparr>Node = c, Cursor_of = ID c\<rparr>) listed';
               endCursor = (if length edges > 0 then Some (Cursor_of (last edges)) else None)
           in Inr \<lparr>Edges = edges,
                   PageInfo = \<lparr>HasNextPage = hasNextPage, EndCursor = endCursor\<rparr>\<rparr>))"

definition Children ::
  "Store \<Rightarrow> Comment \<Rightarrow> go_int option \<Rightarrow> string option \<Rightarrow> panic + CommentConnection" where
  "Children s obj limit cursor =
     (let l = (case limit of None \<Rightarrow> 5 | Some v \<Rightarrow> v) in
      case GetCommentsByParentID s (ID obj) \<lparr>Limit = l + 1, Cursor = cursor\<rparr> of
        Inl p \<Rightarrow> Inl p
      | Inr listed \<Rightarrow> connection listed l)"

definition Comments ::
  "Store \<Rightarrow> Post \<Rightarrow> go_int option \<Rightarrow> string option \<Rightarrow> panic + CommentConnection" where
  "Comments s obj limit cursor =
     (let l = (case limit of None \<Rightarrow> 10 | Some v \<Rightarrow> v) in
      case GetCommentsByPostID s (post_ID obj) \<lparr>Limit = l + 1, Cursor = cursor\<rparr> of
        Inl p \<Rightarrow> Inl p
      | Inr listed \<Rightarrow> connection listed l)"

text \<open>
  The observer maps a post to its subscribers' channels. A channel is made with capacity
  1 and is modelled by the comments waiting in its buffer. The send inside
  \<^verbatim>\<open>select\<close> with a \<^verbatim>\<open>default\<close> branch puts the comment in the buffer when there is
  room and does nothing otherwise. The goroutine that sends is modelled as one step that
  follows the store's; when it runs does not bear on what the mutation returns.
\<close>

record CommentObserver =
  subs :: "string \<rightharpoonup> (string \<rightharpoonup> Comment list)"

definition try_send :: "Comment \<Rightarrow> Comment list \<Rightarrow> Comment list" where
  "try_send c buffer = (if length buffer < 1 then buffer @ [c] else buffer)"

definition publish :: "CommentObserver \<Rightarrow> Comment \<Rightarrow> CommentObserver" where
  "publish obs c =
     (case subs obs (PostID c) of
        None \<Rightarrow> obs
      | Some postSubs \<Rightarrow>
          obs\<lparr>subs := (subs obs)(PostID c \<mapsto> (\<lambda>subID. map_option (try_send c) (postSubs subID)))\<rparr>)"

record NewComment =
  new_PostID :: string
  new_ParentID :: "string option"
  new_AuthorID :: string
  new_Content :: string

text \<open>The zero \<^verbatim>\<open>time.Time\<close>: 1 January of year 1, in nanoseconds before the epoch.\<close>

definition zero_time :: time where
  "zero_time = - 62135596800000000000"

definition draft_of :: "NewComment \<Rightarrow> Comment" where
  "draft_of input =
     \<lparr>ID = [], PostID = new_PostID input, ParentID = new_ParentID input,
      AuthorID = new_AuthorID input, Content = new_Content input, CreatedAt = zero_time\<rparr>"

definition mutation_CreateComment ::
  "Store \<Rightarrow> CommentObserver \<Rightarrow> string \<Rightarrow> time \<Rightarrow> NewComment
     \<Rightarrow> (error + Comment) \<times> Store \<times> CommentObserver" where
  "mutation_CreateComment s obs uuid now input =
     (case CreateComment s uuid now (draft_of input) of
        (Inl err, s') \<Rightarrow> (Inl err, s', obs)
      | (Inr newComment, s') \<Rightarrow> (Inr newComment, s', publish obs newComment))"

section \<open>Stores the operations can build\<close>

text \<open>
  The stores reachable from \<open>New\<close> by the three mutating methods, with any identifiers and
  clock readings.
\<close>

inductive reachable :: "Store \<Rightarrow> bool" where
  reachable_New: "reachable New"
| reachable_CreatePost: "reachable s \<Longrightarrow> reachable (snd (CreatePost s uuid now post))"
| reachable_ToggleComments: "reachable s \<Longrightarrow> reachable (snd (ToggleComments s postID enable))"
| reachable_CreateComment: "reachable s \<Longrightarrow> reachable (snd (CreateComment s uuid now comment))"

text \<open>
  The stores reachable when every call of \<^verbatim>\<open>uuid.NewString()\<close> in \<open>CreateComment\<close>
  returns an identifier no comment has yet, and what that keeps true: a comment is stored
  under its own identifier, and an index lists no identifier twice and none that is not a
  comment's.
\<close>

inductive fresh_reachable :: "Store \<Rightarrow> bool" where
  fresh_New: "fresh_reachable New"
| fresh_CreatePost: "fresh_reachable s \<Longrightarrow> fresh_reachable (snd (CreatePost s uuid now post))"
| fresh_ToggleComments: "fresh_reachable s \<Longrightarrow> fresh_reachable (snd (ToggleComments s postID enable))"
| fresh_CreateComment:
    "fresh_reachable s \<Longrightarrow> comments s uuid = None \<Longrightarrow>
       fresh_reachable (snd (CreateComment s uuid now comment))"

definition unique_ids :: "Store \<Rightarrow> bool" where
  "unique_ids s =
     ((\<forall>k c. comments s k = Some c \<longrightarrow> ID c = k)
      \<and> (\<forall>k ids. commentsByPost s k = Some ids \<longrightarrow> distinct ids \<and> set ids \<subseteq> dom (comments s))
      \<and> (\<forall>k ids. commentsByParent s k = Some ids \<longrightarrow> distinct ids \<and> set ids \<subseteq> dom (comments s)))"


text \<open>Every key of a child index is a post, respectively a comment, of the store.\<close>

definition indexed :: "Store \<Rightarrow> bool" where
  "indexed s = (dom (commentsByPost s) \<subseteq> dom (posts s)
               \<and> dom (commentsByParent s) \<subseteq> dom (comments s))"


section \<open>Orders on comments\<close>

text \<open>
  Go compares strings byte by byte. \<open>time_then_id\<close> is the order the specification
  names: by creation time, ties broken by identifier.
\<close>

fun string_less :: "string \<Rightarrow> string \<Rightarrow> bool" where
  "string_less [] [] = False"
| "string_less [] (y # ys) = True"
| "string_less (x # xs) [] = False"
| "string_less (x # xs) (y # ys) =
     ((of_char x :: nat) < of_char y \<or> ((of_char x :: nat) = of_char y \<and> string_less xs ys))"

definition time_then_id :: "Comment \<Rightarrow> Comment \<Rightarrow> bool" where
  "time_then_id c d =
     (CreatedAt c < CreatedAt d
      \<or> (CreatedAt c = CreatedAt d \<and> (ID c = ID d \<or> string_less (ID c) (ID d))))"

text \<open>The root comments of a post in listing order; \<open>children_of\<close> is its counterpart.\<close>

definition roots_of :: "Store \<Rightarrow> string \<Rightarrow> Comment list" where
  "roots_of s postID =
     candidates s (case commentsByPost s postID of None \<Rightarrow> [] | Some ids \<Rightarrow> ids)"

section \<open>The paginator, as the specification words it\<close>

text \<open>
  The items strictly after the cursor, or all of them when there is no cursor or no item
  carries it; the page of at most \<open>limit\<close> of them, the flag that says more than
  \<open>limit\<close> were left, and the identifier of the last item of the page.
\<close>

definition after_cursor :: "string option \<Rightarrow> Comment list \<Rightarrow> Comment list" where
  "after_cursor cursor ordered =
     (case cursor of
        None \<Rightarrow> ordered
      | Some cur \<Rightarrow>
          if cur \<in> ID ` set ordered then tl (dropWhile (\<lambda>c. ID c \<noteq> cur) ordered)
          else ordered)"

definition spec_page :: "Comment list \<Rightarrow> string option \<Rightarrow> nat \<Rightarrow> CommentConnection" where
  "spec_page ordered cursor limit =
     (let items = take limit (after_cursor cursor ordered) in
      \<lparr>Edges = map (\<lambda>c. \<lparr>Node = c, Cursor_of = ID c\<rparr>) items,
       PageInfo = \<lparr>HasNextPage = (limit < length (after_cursor cursor ordered)),
                   EndCursor = (if items = [] then None else Some (ID (last items)))\<rparr>\<rparr>)"

definition MaxInt :: go_int where
  "MaxInt = 9223372036854775807"

section \<open>Example states\<close>

definition post0 :: Post where
  "post0 = \<lparr>post_ID = [], Title = ''Test Post'', post_Content = ''Content'',
            post_AuthorID = ''user-1'', CommentsEnabled = True, post_CreatedAt = zero_time\<rparr>"

definition p1 :: string where
  "p1 = ''00000000-0000-4000-8000-000000000001''"

definition draft0 :: Comment where
  "draft0 = \<lparr>ID = [], PostID = p1, ParentID = None, AuthorID = ''user-2'',
             Content = ''hi'', CreatedAt = zero_time\<rparr>"

definition blank_draft :: Comment where
  "blank_draft = draft0\<lparr>Content := []\<rparr>"

definition empty_db :: DB where
  "empty_db = \<lparr>posts_table = [], comments_table = []\<rparr>"

text \<open>A store and a database with one post that accepts comments.\<close>

definition store1 :: Store where
  "store1 = snd (CreatePost New p1 100 post0)"

definition db1 :: DB where
  "db1 = \<lparr>posts_table = [post0\<lparr>post_ID := p1, post_CreatedAt := 100\<rparr>], comments_table = []\<rparr>"

text \<open>
  Three comments made in turn on that post: two root comments, \<open>cB\<close> and then \<open>cA\<close>,
  for which the clock reads the same instant, and a reply \<open>cX\<close> to the first.
\<close>

definition cA :: string where
  "cA = ''aaaaaaaa-0000-4000-8000-000000000000''"

definition cB :: string where
  "cB = ''bbbbbbbb-0000-4000-8000-000000000000''"

definition cX :: string where
  "cX = ''cccccccc-0000-4000-8000-000000000000''"

definition store2 :: Store where
  "store2 = snd (CreateComment store1 cB 110 draft0)"

definition store3 :: Store where
  "store3 = snd (CreateComment store2 cA 110 draft0)"

definition store4 :: Store where
  "store4 = snd (CreateComment store3 cX 120 (draft0\<lparr>ParentID := Some cB\<rparr>))"

definition commentA :: Comment where
  "commentA = draft0\<lparr>ID := cA, CreatedAt := 110\<rparr>"

definition commentB :: Comment where
  "commentB = draft0\<lparr>ID := cB, CreatedAt := 110\<rparr>"

definition commentX :: Comment where
  "commentX = draft0\<lparr>ID := cX, CreatedAt := 120, ParentID := Some cB\<rparr>"

definition post1 :: Post where
  "post1 = post0\<lparr>post_ID := p1, post_CreatedAt := 100\<rparr>"

text \<open>
  A database with two posts: two root comments on the first, then one on the second.
\<close>

definition p2 :: string where
  "p2 = ''00000000-0000-4000-8000-000000000002''"

definition db2 :: DB where
  "db2 = \<lparr>posts_table = [post1, post0\<lparr>post_ID := p2, post_CreatedAt := 101\<rparr>],
          comments_table = []\<rparr>"

definition db3 :: DB where
  "db3 = snd (pg_CreateComment
               (snd (pg_CreateComment
                      (snd (pg_CreateComment db2 cA 110 draft0)) cB 120 draft0))
               cX 130 (draft0\<lparr>PostID := p2\<rparr>))"

definition pg_commentB :: Comment where
  "pg_commentB = draft0\<lparr>ID := cB, CreatedAt := 120\<rparr>"

definition pg_commentX :: Comment where
  "pg_commentX = draft0\<lparr>PostID := p2, ID := cX, CreatedAt := 130\<rparr>"

text \<open>A body of 2001 bytes: the letter a and 2000 spaces after it.\<close>

definition padded_body :: string where
  "padded_body = CHR ''a'' # replicate 2000 (CHR '' '')"

definition padded_draft :: Comment where
  "padded_draft = draft0\<lparr>Content := padded_body\<rparr>"

text \<open>A body of 1001 characters in 2002 bytes: 1001 times the letter e with acute accent.\<close>

definition accented_body :: string where
  "accented_body = concat (replicate 1001 [CHR 0xC3, CHR 0xA9])"


definition accented_draft :: Comment where
  "accented_draft = draft0\<lparr>Content := accented_body\<rparr>"

section \<open>The order of the checks\<close>

lemma space_prefix_Nil [simp]: "space_prefix [] = 0"
  by (simp add: space_prefix_def)

lemma space_suffix_Nil [simp]: "space_suffix [] = 0"
  by (simp add: space_suffix_def)

lemma TrimLeftSpace_Nil [simp]: "TrimLeftSpace [] = []"
  by (subst TrimLeftSpace.simps) simp

lemma TrimRightSpace_Nil [simp]: "TrimRightSpace [] = []"
  by (subst TrimRightSpace.simps) simp

lemma TrimSpace_Nil [simp]: "TrimSpace [] = []"
  by (simp add: TrimSpace_def)

text \<open>
  The in-memory store reports the first violated precondition in the order post, flag,
  body, parent, and succeeds exactly when none is violated.
\<close>

lemma CreateComment_first_violation:
  "outcome (fst (CreateComment s uuid now c)) = first_violation s c"
  by (auto simp: CreateComment_def outcome_def first_violation_def post_exists_def
      post_enabled_def body_ok_def parent_ok_def Let_def split: option.splits)

text \<open>
  C1. The PostgreSQL store checks the body before it opens the transaction that looks
  the post up: on the empty database a draft with an empty body for a post that does not
  exist fails with the message about the content, where the in-memory store on the same
  draft fails with \<open>post not found\<close>.
\<close>

theorem pg_CreateComment_body_before_post:
  "fst (pg_CreateComment empty_db uuid now blank_draft) = Inl ContentEmpty
   \<and> message ContentEmpty = ''comment content cannot be empty''
   \<and> first_post empty_db (PostID blank_draft) = None
   \<and> fst (CreateComment New uuid now blank_draft) = Inl PostNotFound"
  by (simp add: pg_CreateComment_def CreateComment_def empty_db_def blank_draft_def
      draft0_def first_post_def New_def)

section \<open>The body constraints\<close>

lemma space_prefix_plain:
  assumes "\<not> asciiSpace a" "(of_char a :: nat) < 128"
  shows "space_prefix (a # xs) = 0"
proof -
  have "\<not> space_rune (a # ys)" for ys
    using assms by (cases ys rule: space_rune.cases) (auto simp: Let_def)
  then show ?thesis using assms by (simp add: space_prefix_def)
qed

lemma TrimLeftSpace_plain:
  assumes "\<not> asciiSpace a" "(of_char a :: nat) < 128"
  shows "TrimLeftSpace (a # xs) = a # xs"
  by (subst TrimLeftSpace.simps) (simp add: space_prefix_plain [OF assms])

lemma TrimRightSpace_snoc_space: "TrimRightSpace (xs @ [CHR '' '']) = TrimRightSpace xs"
proof -
  have "space_suffix (xs @ [CHR '' '']) = 1"
    by (simp add: space_suffix_def asciiSpace_def)
  then show ?thesis by (subst TrimRightSpace.simps) simp
qed

lemma TrimRightSpace_spaces:
  "TrimRightSpace (xs @ replicate n (CHR '' '')) = TrimRightSpace xs"
proof (induction n)
  case 0
  then show ?case by simp
next
  case (Suc n)
  have "xs @ replicate (Suc n) (CHR '' '') = (xs @ replicate n (CHR '' '')) @ [CHR '' '']"
    by (simp add: replicate_append_same)
  then show ?case using Suc by (simp only: TrimRightSpace_snoc_space)
qed

lemma TrimRightSpace_a: "TrimRightSpace ''a'' = ''a''"
  by (subst TrimRightSpace.simps) (simp add: space_suffix_def asciiSpace_def)

lemma TrimSpace_padded: "TrimSpace (CHR ''a'' # replicate n (CHR '' '')) = ''a''"
proof -
  have "TrimLeftSpace (CHR ''a'' # replicate n (CHR '' '')) = CHR ''a'' # replicate n (CHR '' '')"
    by (rule TrimLeftSpace_plain) (simp_all add: asciiSpace_def)
  moreover have "TrimRightSpace (''a'' @ replicate n (CHR '' '')) = TrimRightSpace ''a''"
    by (rule TrimRightSpace_spaces)
  ultimately show ?thesis by (simp add: TrimSpace_def TrimRightSpace_a)
qed

lemma store1_post: "posts store1 p1 = Some (post0\<lparr>post_ID := p1, post_CreatedAt := 100\<rparr>)"
  by (simp add: store1_def CreatePost_def New_def Let_def)

lemma db1_post: "first_post db1 p1 = Some (post0\<lparr>post_ID := p1, post_CreatedAt := 100\<rparr>)"
  by (simp add: db1_def first_post_def)

lemma space_rune_lead: "space_rune r \<Longrightarrow> r \<noteq> [] \<and> space_lead (hd r)"
  by (cases r rule: space_rune.cases) (auto simp: space_lead_def Let_def)

lemma space_prefix_no_lead:
  assumes "\<not> space_lead a"
  shows "space_prefix (a # xs) = 0"
proof -
  have "\<not> space_rune (a # ys)" for ys
    using space_rune_lead [of "a # ys"] assms by auto
  moreover have "\<not> asciiSpace a" using assms by (simp add: space_lead_def)
  ultimately show ?thesis by (simp add: space_prefix_def)
qed

lemma space_suffix_cases:
  assumes "space_suffix s \<noteq> 0"
  shows "space_rune (drop (length s - space_suffix s) s)"
  using assms by (auto simp: space_suffix_def split: if_splits)

lemma TrimRightSpace_keeps_head:
  "s \<noteq> [] \<Longrightarrow> \<not> space_lead (hd s) \<Longrightarrow> TrimRightSpace s \<noteq> [] \<and> hd (TrimRightSpace s) = hd s"
proof (induction s rule: TrimRightSpace.induct)
  case (1 s)
  show ?case
  proof (cases "space_suffix s = 0")
    case True
    with "1.prems" show ?thesis by (subst (1 2) TrimRightSpace.simps) simp
  next
    case False
    let ?k = "space_suffix s"
    from False have r: "space_rune (drop (length s - ?k) s)" by (rule space_suffix_cases)
    have "?k < length s"
    proof (rule ccontr)
      assume "\<not> ?k < length s"
      then have "drop (length s - ?k) s = s" by simp
      with r space_rune_lead [of s] "1.prems" show False by simp
    qed
    with False have t: "take (length s - ?k) s \<noteq> []" "hd (take (length s - ?k) s) = hd s"
      using "1.prems"(1) by (auto simp: hd_take)
    from "1.IH" [OF False t(1)] t(2) "1.prems"(2)
    have "TrimRightSpace (take (length s - ?k) s) \<noteq> []
        \<and> hd (TrimRightSpace (take (length s - ?k) s)) = hd s" by simp
    with False show ?thesis by (subst (1 2) TrimRightSpace.simps) simp
  qed
qed

lemma TrimSpace_no_lead:
  assumes "\<not> space_lead a"
  shows "TrimSpace (a # xs) \<noteq> []"
proof -
  have "TrimLeftSpace (a # xs) = a # xs"
    by (subst TrimLeftSpace.simps) (simp add: space_prefix_no_lead [OF assms])
  with TrimRightSpace_keeps_head [of "a # xs"] assms show ?thesis
    by (simp add: TrimSpace_def)
qed

lemma accented_body_unfold:
  "accented_body = CHR 0xC3 # CHR 0xA9 # concat (replicate 1000 [CHR 0xC3, CHR 0xA9])"
proof -
  have "(1001 :: nat) = Suc 1000" by simp
  then show ?thesis by (simp only: accented_body_def replicate_Suc concat.simps append.simps)
qed

lemma accented_counts: "length (concat (replicate n [CHR 0xC3, CHR 0xA9])) = 2 * n"
  "rune_count (concat (replicate n [CHR 0xC3, CHR 0xA9])) = n"
  by (induction n) (simp_all add: rune_count_def)

lemma accented_body_facts:
  "length accented_body = 2002" "rune_count accented_body = 1001" "TrimSpace accented_body \<noteq> []"
proof -
  show "length accented_body = 2002" "rune_count accented_body = 1001"
    by (simp_all add: accented_body_def accented_counts)
  show "TrimSpace accented_body \<noteq> []"
    unfolding accented_body_unfold
    by (rule TrimSpace_no_lead) (simp add: space_lead_def asciiSpace_def)
qed

text \<open>
  C3, as the claim words it, fails, on a post that exists and accepts comments. The body
  made of the letter a and 2000 spaces trims to one byte, and both stores reject it as
  too long. The body of 1001 accented letters does not trim to the empty string and has
  fewer than 2000 characters, and the store rejects it as too long: it counts the 2002
  bytes.
\<close>

theorem CreateComment_padded_body_too_long:
  "posts store1 (PostID padded_draft) = Some (post0\<lparr>post_ID := p1, post_CreatedAt := 100\<rparr>)
   \<and> CommentsEnabled (post0\<lparr>post_ID := p1, post_CreatedAt := 100\<rparr>)
   \<and> TrimSpace (Content padded_draft) = ''a''
   \<and> length (TrimSpace (Content padded_draft)) \<le> 2000
   \<and> fst (CreateComment store1 ''c1'' 200 padded_draft) = Inl ContentTooLong
   \<and> fst (pg_CreateComment db1 ''c1'' 200 padded_draft) = Inl ContentTooLong
   \<and> message ContentTooLong = ''comment content is too long''
   \<and> PostID accented_draft = PostID padded_draft
   \<and> TrimSpace (Content accented_draft) \<noteq> []
   \<and> rune_count (Content accented_draft) = 1001
   \<and> fst (CreateComment store1 ''c1'' 200 accented_draft) = Inl ContentTooLong"
proof -
  have padded: "posts store1 (PostID padded_draft) = Some (post0\<lparr>post_ID := p1, post_CreatedAt := 100\<rparr>)
   \<and> CommentsEnabled (post0\<lparr>post_ID := p1, post_CreatedAt := 100\<rparr>)
   \<and> TrimSpace (Content padded_draft) = ''a''
   \<and> length (TrimSpace (Content padded_draft)) \<le> 2000
   \<and> fst (CreateComment store1 ''c1'' 200 padded_draft) = Inl ContentTooLong
   \<and> fst (pg_CreateComment db1 ''c1'' 200 padded_draft) = Inl ContentTooLong
   \<and> message ContentTooLong = ''comment content is too long''"
    by (simp add: padded_draft_def padded_body_def draft0_def store1_post TrimSpace_padded
        post0_def CreateComment_def pg_CreateComment_def)
  have accented: "PostID accented_draft = PostID padded_draft
   \<and> TrimSpace (Content accented_draft) \<noteq> []
   \<and> rune_count (Content accented_draft) = 1001
   \<and> fst (CreateComment store1 ''c1'' 200 accented_draft) = Inl ContentTooLong"
    by (simp add: accented_draft_def padded_draft_def draft0_def store1_post accented_body_facts
        post0_def CreateComment_def)
  from padded accented show ?thesis by blast
qed

text \<open>
  C3, amended. For every draft whose post exists and accepts comments, in either store,
  \<open>CreateComment\<close> fails with an error about the body exactly when the body trims to
  the empty string or the body as submitted, untrimmed, is longer than 2000 bytes; it
  fails with the message about the length exactly when the submitted body is longer than
  2000 bytes.
\<close>

theorem CreateComment_InvalidBody_iff:
  "(posts s (PostID c) = Some p \<and> CommentsEnabled p \<longrightarrow>
      fails_with InvalidBody (fst (CreateComment s uuid now c))
        = (TrimSpace (Content c) = [] \<or> 2000 < length (Content c))
      \<and> (fst (CreateComment s uuid now c) = Inl ContentTooLong) = (2000 < length (Content c)))
   \<and> (first_post db (PostID c) = Some q \<and> CommentsEnabled q \<longrightarrow>
      fails_with InvalidBody (fst (pg_CreateComment db uuid now c))
        = (TrimSpace (Content c) = [] \<or> 2000 < length (Content c))
      \<and> (fst (pg_CreateComment db uuid now c) = Inl ContentTooLong) = (2000 < length (Content c)))"
proof -
  have mem: "fails_with InvalidBody (fst (CreateComment s uuid now c))
           = (TrimSpace (Content c) = [] \<or> 2000 < length (Content c))"
    if "posts s (PostID c) = Some p" "CommentsEnabled p"
    using that
    by (auto simp: CreateComment_def fails_with_def InvalidBody_def Let_def split: option.splits)
  have mem_long: "(fst (CreateComment s uuid now c) = Inl ContentTooLong) = (2000 < length (Content c))"
    if "posts s (PostID c) = Some p" "CommentsEnabled p"
    using that
    by (auto simp: CreateComment_def Let_def split: option.splits)
  have pg: "fails_with InvalidBody (fst (pg_CreateComment db uuid now c))
           = (TrimSpace (Content c) = [] \<or> 2000 < length (Content c))"
    if "first_post db (PostID c) = Some q" "CommentsEnabled q"
    using that
    by (auto simp: pg_CreateComment_def fails_with_def InvalidBody_def Let_def split: option.splits)
  have pg_long: "(fst (pg_CreateComment db uuid now c) = Inl ContentTooLong) = (2000 < length (Content c))"
    if "first_post db (PostID c) = Some q" "CommentsEnabled q"
    using that
    by (auto simp: pg_CreateComment_def Let_def split: option.splits)
  from mem mem_long pg pg_long show ?thesis by blast
qed

theorem CreateComment_InvalidBody_iff_witness:
  "posts store1 (PostID padded_draft) = Some (post0\<lparr>post_ID := p1, post_CreatedAt := 100\<rparr>)
   \<and> CommentsEnabled (post0\<lparr>post_ID := p1, post_CreatedAt := 100\<rparr>)
   \<and> first_post db1 (PostID padded_draft) = Some (post0\<lparr>post_ID := p1, post_CreatedAt := 100\<rparr>)
   \<and> fails_with InvalidBody (fst (CreateComment store1 ''c1'' 200 padded_draft))
   \<and> fails_with InvalidBody (fst (pg_CreateComment db1 ''c1'' 200 padded_draft))
   \<and> 2000 < length (Content padded_draft)"
proof -
  have a: "posts store1 (PostID padded_draft) = Some (post0\<lparr>post_ID := p1, post_CreatedAt := 100\<rparr>)"
    by (simp add: padded_draft_def draft0_def store1_post)
  have b: "CommentsEnabled (post0\<lparr>post_ID := p1, post_CreatedAt := 100\<rparr>)"
    by (simp add: post0_def)
  have c: "first_post db1 (PostID padded_draft) = Some (post0\<lparr>post_ID := p1, post_CreatedAt := 100\<rparr>)"
    by (simp add: padded_draft_def draft0_def db1_post)
  have d: "2000 < length (Content padded_draft)"
    by (simp add: padded_draft_def padded_body_def)
  note t = CreateComment_InvalidBody_iff [of store1 padded_draft
      "post0\<lparr>post_ID := p1, post_CreatedAt := 100\<rparr>" "''c1''" 200 db1
      "post0\<lparr>post_ID := p1, post_CreatedAt := 100\<rparr>"]
  from t a b d have e: "fails_with InvalidBody (fst (CreateComment store1 ''c1'' 200 padded_draft))"
    by blast
  from t c b d have f: "fails_with InvalidBody (fst (pg_CreateComment db1 ''c1'' 200 padded_draft))"
    by blast
  from a b c d e f show ?thesis by blast
qed

section \<open>Pagination\<close>

text \<open>
  Addition on \<open>go_int\<close> agrees with addition on the integers as long as the sum stays
  below \<open>2 ^ 63\<close>.
\<close>

lemma sint_index_add:
  assumes "0 \<le> sint (L :: 64 word)" and "int n + sint L < 2 ^ 63"
  shows "sint (word_of_nat n + L) = int n + sint L"
proof -
  have n: "int n < 2 ^ 63" using assms by linarith
  have "sint (word_of_nat n :: 64 word) = signed_take_bit 63 (int n)"
    by (simp add: signed_of_nat)
  also have "\<dots> = int n"
    using n by (intro signed_take_bit_int_eq_self) auto
  finally have "sint (word_of_nat n + L) = signed_take_bit 63 (int n + sint L)"
    by (simp add: sint_word_add)
  also have "\<dots> = int n + sint L"
    using assms by (intro signed_take_bit_int_eq_self) auto
  finally show ?thesis .
qed

lemma sint_succ:
  assumes "sint (l :: 64 word) < 2 ^ 63 - 1"
  shows "sint (l + 1) = sint l + 1"
proof -
  have "- (2 ^ 63) \<le> sint l" using sint_ge [of l] by simp
  then have "signed_take_bit 63 (sint l + 1) = sint l + 1"
    using assms by (intro signed_take_bit_int_eq_self) auto
  then show ?thesis by (simp add: sint_word_add)
qed

lemma candidates_Nil [simp]: "candidates s [] = []"
  by (simp add: candidates_def lookup_all_def sortByCreatedAt_def)

lemma paginateComments_in_range:
  assumes "0 \<le> sint L"
    and "int (start_index cur (candidates s ids)) + sint L < 2 ^ 63"
  shows "paginateComments s ids \<lparr>Limit = L, Cursor = cur\<rparr>
         = Inr (take (nat (sint L)) (drop (start_index cur (candidates s ids)) (candidates s ids)))"
proof -
  let ?all = "candidates s ids"
  let ?st = "start_index cur ?all"
  show ?thesis
  proof (cases "?st \<ge> length ?all")
    case True
    then show ?thesis by (simp add: paginateComments_def Let_def)
  next
    case False
    have e: "sint (word_of_nat ?st + L) = int ?st + sint L"
      using assms by (rule sint_index_add)
    show ?thesis
    proof (cases "int ?st + sint L > int (length ?all)")
      case True
      with False assms(1) e show ?thesis
        by (simp add: paginateComments_def Let_def slice_def)
    next
      case b: False
      have "nat (int ?st + sint L) - ?st = nat (sint L)"
        using assms(1) by linarith
      with False b assms(1) e show ?thesis
        by (simp add: paginateComments_def Let_def slice_def)
    qed
  qed
qed


lemma cursor_index_None: "cursor_index cur cs = None \<longleftrightarrow> cur \<notin> ID ` set cs"
  by (induction cs) auto

lemma cursor_index_Some:
  "cursor_index cur cs = Some i \<Longrightarrow>
     i < length cs \<and> ID (cs ! i) = cur \<and> dropWhile (\<lambda>c. ID c \<noteq> cur) cs = drop i cs"
proof (induction cs arbitrary: i)
  case Nil
  then show ?case by simp
next
  case (Cons c cs)
  show ?case
  proof (cases "ID c = cur")
    case True
    with Cons.prems show ?thesis by simp
  next
    case False
    with Cons.prems obtain j where j: "cursor_index cur cs = Some j" "i = Suc j"
      by auto
    from Cons.IH [OF j(1)] False j(2) show ?thesis by simp
  qed
qed

lemma drop_start_index: "drop (start_index cursor ordered) ordered = after_cursor cursor ordered"
proof (cases cursor)
  case None
  then show ?thesis by (simp add: start_index_def after_cursor_def)
next
  case (Some cur)
  show ?thesis
  proof (cases "cursor_index cur ordered")
    case None
    then have "cur \<notin> ID ` set ordered" by (simp add: cursor_index_None)
    with None Some show ?thesis
      by (simp add: start_index_def after_cursor_def)
  next
    case (Some i)
    from cursor_index_Some [OF Some]
    have "dropWhile (\<lambda>c. ID c \<noteq> cur) ordered = drop i ordered" by simp
    moreover have "cur \<in> ID ` set ordered"
      using Some cursor_index_None [of cur ordered] by auto
    ultimately show ?thesis
      using Some \<open>cursor = Some cur\<close>
      by (simp add: start_index_def after_cursor_def drop_Suc tl_drop)
  qed
qed

lemma start_index_le: "start_index cursor ordered \<le> length ordered"
proof (cases cursor)
  case None
  then show ?thesis by (simp add: start_index_def)
next
  case (Some cur)
  then show ?thesis
    by (cases "cursor_index cur ordered")
       (auto simp: start_index_def dest: cursor_index_Some)
qed

lemma GetCommentsByParentID_children:
  "GetCommentsByParentID s parentID args =
     paginateComments s (case commentsByParent s parentID of None \<Rightarrow> [] | Some ids \<Rightarrow> ids) args"
  by (cases "commentsByParent s parentID")
     (simp_all add: GetCommentsByParentID_def paginateComments_def Let_def)

lemma GetCommentsByPostID_roots:
  "GetCommentsByPostID s postID args =
     paginateComments s (case commentsByPost s postID of None \<Rightarrow> [] | Some ids \<Rightarrow> ids) args"
  by (cases "commentsByPost s postID")
     (simp_all add: GetCommentsByPostID_def paginateComments_def Let_def)

lemma GetCommentsByParentID_in_range:
  assumes "0 \<le> sint L"
    and "int (start_index cur (children_of s parentID)) + sint L < 2 ^ 63"
  shows "GetCommentsByParentID s parentID \<lparr>Limit = L, Cursor = cur\<rparr>
         = Inr (take (nat (sint L)) (after_cursor cur (children_of s parentID)))"
  using paginateComments_in_range [of L cur s
      "case commentsByParent s parentID of None \<Rightarrow> [] | Some ids \<Rightarrow> ids"] assms
  by (simp add: GetCommentsByParentID_children children_of_def drop_start_index)

lemma GetCommentsByPostID_in_range:
  assumes "0 \<le> sint L"
    and "int (start_index cur (roots_of s postID)) + sint L < 2 ^ 63"
  shows "GetCommentsByPostID s postID \<lparr>Limit = L, Cursor = cur\<rparr>
         = Inr (take (nat (sint L)) (after_cursor cur (roots_of s postID)))"
  using paginateComments_in_range [of L cur s
      "case commentsByPost s postID of None \<Rightarrow> [] | Some ids \<Rightarrow> ids"] assms
  by (simp add: GetCommentsByPostID_roots roots_of_def drop_start_index)

lemma connection_page:
  assumes "0 \<le> sint l"
  shows "connection (take (nat (sint l) + 1) rest) l
         = Inr \<lparr>Edges = map (\<lambda>c. \<lparr>Node = c, Cursor_of = ID c\<rparr>) (take (nat (sint l)) rest),
                PageInfo = \<lparr>HasNextPage = (nat (sint l) < length rest),
                   EndCursor = (if take (nat (sint l)) rest = [] then None
                                else Some (ID (last (take (nat (sint l)) rest))))\<rparr>\<rparr>"
proof (cases "nat (sint l) < length rest")
  case True
  then have len: "length (take (nat (sint l) + 1) rest) = nat (sint l) + 1" by simp
  have more: "int (length (take (nat (sint l) + 1) rest)) > sint l"
    using assms len by linarith
  have cut: "take (nat (sint l)) (take (nat (sint l) + 1) rest) = take (nat (sint l)) rest"
    by (simp add: min_def)
  show ?thesis
    using True assms more cut
    by (simp add: connection_def Let_def slice_def last_map)
next
  case False
  then have all: "take (nat (sint l) + 1) rest = rest" "take (nat (sint l)) rest = rest"
    by simp_all
  have "\<not> int (length rest) > sint l" using False assms by linarith
  then show ?thesis
    using False all by (simp add: connection_def Let_def last_map)
qed


lemma Children_in_range:
  assumes "0 \<le> sint l"
    and "int (start_index cursor (children_of s (ID obj))) + sint l + 1 < 2 ^ 63"
  shows "Children s obj (Some l) cursor
         = Inr (spec_page (children_of s (ID obj)) cursor (nat (sint l)))"
proof -
  have "sint l < 2 ^ 63 - 1" using assms(2) by linarith
  then have s1: "sint (l + 1) = sint l + 1" by (rule sint_succ)
  have n1: "nat (sint l + 1) = nat (sint l) + 1" using assms(1) by linarith
  have "GetCommentsByParentID s (ID obj) \<lparr>Limit = l + 1, Cursor = cursor\<rparr>
        = Inr (take (nat (sint l) + 1) (after_cursor cursor (children_of s (ID obj))))"
    using GetCommentsByParentID_in_range [of "l + 1" cursor s "ID obj"] assms s1 n1 by simp
  then show ?thesis
    using connection_page [OF assms(1), of "after_cursor cursor (children_of s (ID obj))"]
    by (simp add: Children_def spec_page_def Let_def)
qed

lemma Comments_in_range:
  assumes "0 \<le> sint l"
    and "int (start_index cursor (roots_of s (post_ID obj))) + sint l + 1 < 2 ^ 63"
  shows "Comments s obj (Some l) cursor
         = Inr (spec_page (roots_of s (post_ID obj)) cursor (nat (sint l)))"
proof -
  have "sint l < 2 ^ 63 - 1" using assms(2) by linarith
  then have s1: "sint (l + 1) = sint l + 1" by (rule sint_succ)
  have n1: "nat (sint l + 1) = nat (sint l) + 1" using assms(1) by linarith
  have "GetCommentsByPostID s (post_ID obj) \<lparr>Limit = l + 1, Cursor = cursor\<rparr>
        = Inr (take (nat (sint l) + 1) (after_cursor cursor (roots_of s (post_ID obj))))"
    using GetCommentsByPostID_in_range [of "l + 1" cursor s "post_ID obj"] assms s1 n1 by simp
  then show ?thesis
    using connection_page [OF assms(1), of "after_cursor cursor (roots_of s (post_ID obj))"]
    by (simp add: Comments_def spec_page_def Let_def)
qed


subsection \<open>The example stores, evaluated\<close>

lemma TrimSpace_hi: "TrimSpace ''hi'' = ''hi''"
proof -
  have "TrimLeftSpace ''hi'' = ''hi''"
    by (rule TrimLeftSpace_plain) (simp_all add: asciiSpace_def)
  moreover have "TrimRightSpace ''hi'' = ''hi''"
    by (subst TrimRightSpace.simps) (simp add: space_suffix_def asciiSpace_def)
  ultimately show ?thesis by (simp add: TrimSpace_def)
qed

lemma ids_distinct: "cA \<noteq> cB" "cA \<noteq> cX" "cB \<noteq> cX" "cB \<noteq> cA" "cX \<noteq> cA" "cX \<noteq> cB" "p1 \<noteq> p2" "p2 \<noteq> p1"
  by (simp_all add: cA_def cB_def cX_def p1_def p2_def)

lemma store1_eq:
  "store1 = \<lparr>posts = [p1 \<mapsto> post1], comments = Map.empty,
             commentsByPost = Map.empty, commentsByParent = Map.empty\<rparr>"
  by (simp add: store1_def CreatePost_def New_def Let_def post1_def)

lemma post1_enabled: "CommentsEnabled post1"
  by (simp add: post1_def post0_def)

lemma store2_eq:
  "store2 = \<lparr>posts = [p1 \<mapsto> post1], comments = [cB \<mapsto> commentB],
             commentsByPost = [p1 \<mapsto> [cB]], commentsByParent = Map.empty\<rparr>"
  by (simp add: store2_def CreateComment_def store1_eq post1_enabled draft0_def TrimSpace_hi
      Let_def append_at_def commentB_def)

lemma store3_eq:
  "store3 = \<lparr>posts = [p1 \<mapsto> post1], comments = [cB \<mapsto> commentB, cA \<mapsto> commentA],
             commentsByPost = [p1 \<mapsto> [cB, cA]], commentsByParent = Map.empty\<rparr>"
  by (simp add: store3_def CreateComment_def store2_eq post1_enabled draft0_def TrimSpace_hi
      Let_def append_at_def commentA_def)

lemma store4_eq:
  "store4 = \<lparr>posts = [p1 \<mapsto> post1],
             comments = [cB \<mapsto> commentB, cA \<mapsto> commentA, cX \<mapsto> commentX],
             commentsByPost = [p1 \<mapsto> [cB, cA]], commentsByParent = [cB \<mapsto> [cX]]\<rparr>"
  by (simp add: store4_def CreateComment_def store3_eq post1_enabled draft0_def TrimSpace_hi
      Let_def append_at_def commentX_def ids_distinct)

lemma children_store4: "children_of store4 cB = [commentX]"
  by (simp add: children_of_def candidates_def lookup_all_def sortByCreatedAt_def store4_eq
      map_filter_simps ids_distinct)

lemma roots_store4: "roots_of store4 p1 = [commentB, commentA]"
  by (simp add: roots_of_def candidates_def lookup_all_def sortByCreatedAt_def store4_eq
      map_filter_simps ids_distinct commentA_def commentB_def)

lemma cursor_index_nth:
  "distinct (map ID xs) \<Longrightarrow> i < length xs \<Longrightarrow> cursor_index (ID (xs ! i)) xs = Some i"
proof (induction xs arbitrary: i)
  case Nil
  then show ?case by simp
next
  case (Cons x xs)
  show ?case
  proof (cases i)
    case 0
    then show ?thesis by simp
  next
    case (Suc j)
    with Cons.prems have j: "j < length xs" and d: "distinct (map ID xs)"
      and nx: "ID x \<notin> ID ` set xs" by auto
    from j have "ID (xs ! j) \<in> ID ` set xs" by simp
    with nx have "ID x \<noteq> ID (xs ! j)" by metis
    with Cons.IH [OF d j] Suc show ?thesis by simp
  qed
qed

lemma after_cursor_last_take:
  assumes "distinct (map ID xs)" and "take n xs \<noteq> []"
  shows "after_cursor (Some (ID (last (take n xs)))) xs = drop (length (take n xs)) xs"
proof -
  let ?m = "length (take n xs)"
  from assms(2) have m: "0 < ?m" "?m \<le> length xs" by auto
  then have l: "last (take n xs) = xs ! (?m - 1)"
    using assms(2) by (simp add: last_conv_nth min_def split: if_splits)
  have "cursor_index (ID (xs ! (?m - 1))) xs = Some (?m - 1)"
    using m by (intro cursor_index_nth [OF assms(1)]) linarith
  then have "start_index (Some (ID (last (take n xs)))) xs = ?m"
    using m l by (simp add: start_index_def)
  then show ?thesis
    using drop_start_index [of "Some (ID (last (take n xs)))" xs] by simp
qed

lemma two_pages_prefix:
  assumes "distinct (map ID xs)"
  shows "take n1 xs @ take n2 (after_cursor (if take n1 xs = [] then None
            else Some (ID (last (take n1 xs)))) xs)
         = take (length (take n1 xs)
               + length (take n2 (after_cursor (if take n1 xs = [] then None
                   else Some (ID (last (take n1 xs)))) xs))) xs"
proof (cases "take n1 xs = []")
  case True
  have "take (length (take n2 xs)) xs = take n2 xs" by (simp add: min_def)
  moreover from True have "length (take n1 xs) = 0" by (simp only: list.size)
  ultimately show ?thesis using True by (simp add: after_cursor_def del: length_take take_eq_Nil)
next
  case False
  have a: "after_cursor (Some (ID (last (take n1 xs)))) xs = drop (length (take n1 xs)) xs"
    using assms False by (rule after_cursor_last_take)
  let ?m = "length (take n1 xs)"
  have t: "take n1 xs = take ?m xs" by (simp add: min_def)
  have "take ?m xs @ take n2 (drop ?m xs) = take (?m + n2) xs"
    by (simp add: take_add)
  moreover have "take (?m + length (take n2 (drop ?m xs))) xs = take (?m + n2) xs"
    by (simp add: min_def)
  ultimately have "take ?m xs @ take n2 (drop ?m xs)
      = take (?m + length (take n2 (drop ?m xs))) xs" by simp
  with t have "take n1 xs @ take n2 (drop ?m xs)
      = take (?m + length (take n2 (drop ?m xs))) xs" by simp
  with False a show ?thesis by (simp only: if_False)
qed


subsection \<open>Page size and the flag\<close>

text \<open>
  C4, as the claim words it, fails at the largest limit. With \<open>limit = MaxInt\<close> the
  sum \<open>l + 1\<close> wraps to the least \<open>int\<close>, the slice expression of
  \<open>paginateComments\<close> gets an upper bound below its lower bound, and \<open>Children\<close>
  panics where one child is left to return.
\<close>

theorem Children_MaxInt_panics:
  "0 < sint MaxInt
   \<and> after_cursor None (children_of store4 (ID commentB)) = [commentX]
   \<and> Children store4 commentB (Some MaxInt) None = Inl SliceBoundsOutOfRange"
proof -
  have idb: "ID commentB = cB" by (simp add: commentB_def)
  have cbp: "commentsByParent store4 cB = Some [cX]" by (simp add: store4_eq)
  have c: "candidates store4 [cX] = [commentX]"
    using children_store4 by (simp add: children_of_def cbp)
  have g: "GetCommentsByParentID store4 cB \<lparr>Limit = MaxInt + 1, Cursor = None\<rparr>
           = Inl SliceBoundsOutOfRange"
    by (simp add: GetCommentsByParentID_def cbp paginateComments_def c start_index_def
        Let_def slice_def MaxInt_def)
  have a: "after_cursor None (children_of store4 (ID commentB)) = [commentX]"
    by (simp add: after_cursor_def idb children_store4)
  have m: "0 < sint MaxInt" by (simp add: MaxInt_def)
  from g have "Children store4 commentB (Some MaxInt) None = Inl SliceBoundsOutOfRange"
    by (simp add: Children_def idb)
  with a m show ?thesis by simp
qed


text \<open>
  C4, amended. For every parent comment, every cursor and every positive limit such that
  the number of siblings up to and including the cursor's, plus the limit, plus one, is
  below \<open>2 ^ 63\<close>: \<open>Children\<close> returns a page; its \<open>hasNextPage\<close> is true exactly
  when strictly more than \<open>limit\<close> siblings come after the cursor position in the
  ordered candidate list; and the page holds exactly \<open>min limit remaining\<close> items,
  the first ones after the cursor position.
\<close>

theorem Children_page_and_flag:
  assumes "0 < sint l"
    and "int (start_index cursor (children_of s (ID obj))) + sint l + 1 < 2 ^ 63"
  shows "\<exists>page. Children s obj (Some l) cursor = Inr page
       \<and> HasNextPage (PageInfo page)
           = (nat (sint l) < length (after_cursor cursor (children_of s (ID obj))))
       \<and> length (Edges page)
           = min (nat (sint l)) (length (after_cursor cursor (children_of s (ID obj))))
       \<and> map Node (Edges page)
           = take (nat (sint l)) (after_cursor cursor (children_of s (ID obj)))"
proof -
  have "Children s obj (Some l) cursor
        = Inr (spec_page (children_of s (ID obj)) cursor (nat (sint l)))"
    using assms by (intro Children_in_range) auto
  then show ?thesis
    by (simp add: spec_page_def Let_def comp_def min.commute)
qed


theorem Children_page_and_flag_witness:
  "0 < sint (1 :: go_int)
   \<and> int (start_index None (children_of store4 (ID commentB))) + sint (1 :: go_int) + 1 < 2 ^ 63
   \<and> (\<exists>page. Children store4 commentB (Some 1) None = Inr page
         \<and> HasNextPage (PageInfo page) = False
         \<and> length (Edges page) = 1
         \<and> map Node (Edges page) = [commentX])"
proof -
  have idb: "ID commentB = cB" by (simp add: commentB_def)
  have a: "0 < sint (1 :: go_int)" by simp
  have b: "int (start_index None (children_of store4 (ID commentB))) + sint (1 :: go_int) + 1 < 2 ^ 63"
    by (simp add: start_index_def)
  have r: "after_cursor None (children_of store4 (ID commentB)) = [commentX]"
    by (simp add: after_cursor_def idb children_store4)
  from Children_page_and_flag [OF a b] r a b show ?thesis by simp
qed

subsection \<open>Identifiers of siblings are distinct when every uuid is new\<close>

lemma unique_ids_CreateComment:
  assumes "unique_ids s" and "comments s uuid = None"
  shows "unique_ids (snd (CreateComment s uuid now c))"
proof (cases "fst (CreateComment s uuid now c)")
  case (Inl e)
  then have "snd (CreateComment s uuid now c) = s"
    by (auto simp: CreateComment_def Let_def split: option.splits if_splits)
  with assms show ?thesis by simp
next
  case (Inr c')
  have fresh: "uuid \<notin> set ids" if "set ids \<subseteq> dom (comments s)" for ids
    using that assms(2) by auto
  show ?thesis
  proof (cases "ParentID c")
    case None
    with Inr have s': "snd (CreateComment s uuid now c)
        = s\<lparr>comments := (comments s)(uuid \<mapsto> c\<lparr>ID := uuid, CreatedAt := now\<rparr>),
             commentsByPost := append_at (commentsByPost s) (PostID c) uuid\<rparr>"
      by (auto simp: CreateComment_def Let_def split: option.splits if_splits)
    show ?thesis
      unfolding s' unique_ids_def
      using assms fresh
      by (auto simp: unique_ids_def append_at_def split: option.splits if_splits) blast+
  next
    case (Some p)
    with Inr have s': "snd (CreateComment s uuid now c)
        = s\<lparr>comments := (comments s)(uuid \<mapsto> c\<lparr>ID := uuid, CreatedAt := now\<rparr>),
             commentsByParent := append_at (commentsByParent s) p uuid\<rparr>"
      by (auto simp: CreateComment_def Let_def split: option.splits if_splits)
    show ?thesis
      unfolding s' unique_ids_def
      using assms fresh
      by (auto simp: unique_ids_def append_at_def split: option.splits if_splits) blast+
  qed
qed

lemma fresh_reachable_unique_ids: "fresh_reachable s \<Longrightarrow> unique_ids s"
proof (induction rule: fresh_reachable.induct)
  case fresh_New
  show ?case by (simp add: unique_ids_def New_def)
next
  case (fresh_CreatePost s uuid now post)
  then show ?case by (simp add: unique_ids_def CreatePost_def Let_def)
next
  case (fresh_ToggleComments s postID enable)
  then show ?case
    by (auto simp: unique_ids_def ToggleComments_def Let_def split: option.splits)
next
  case (fresh_CreateComment s uuid now comment)
  then show ?case by (simp add: unique_ids_CreateComment)
qed

lemma lookup_all_ids:
  assumes "\<forall>k c. comments s k = Some c \<longrightarrow> ID c = k" and "set ids \<subseteq> dom (comments s)"
  shows "map ID (lookup_all s ids) = ids"
  using assms(2)
proof (induction ids)
  case Nil
  then show ?case by (simp add: lookup_all_def)
next
  case (Cons k ids)
  then obtain c where c: "comments s k = Some c" by auto
  with assms(1) have "ID c = k" by blast
  with Cons c show ?case by (simp add: lookup_all_def)
qed

lemma distinct_candidates:
  assumes "\<forall>k c. comments s k = Some c \<longrightarrow> ID c = k"
    and "set ids \<subseteq> dom (comments s)" and "distinct ids"
  shows "distinct (map ID (candidates s ids))"
proof -
  have "distinct (map ID (lookup_all s ids))"
    using lookup_all_ids [OF assms(1,2)] assms(3) by simp
  then have "distinct (lookup_all s ids) \<and> inj_on ID (set (lookup_all s ids))"
    by (simp add: distinct_map)
  then show ?thesis
    by (simp add: candidates_def sortByCreatedAt_def distinct_map)
qed

lemma fresh_reachable_distinct_ids:
  assumes "fresh_reachable s"
  shows "distinct (map ID (roots_of s postID))" and "distinct (map ID (children_of s parentID))"
proof -
  from assms have u: "unique_ids s" by (rule fresh_reachable_unique_ids)
  then have c: "\<forall>k c. comments s k = Some c \<longrightarrow> ID c = k" by (simp add: unique_ids_def)
  show "distinct (map ID (roots_of s postID))"
  proof (cases "commentsByPost s postID")
    case None
    then show ?thesis by (simp add: roots_of_def)
  next
    case (Some ids)
    with u have "distinct ids" "set ids \<subseteq> dom (comments s)"
      unfolding unique_ids_def by blast+
    with c Some show ?thesis by (simp add: roots_of_def distinct_candidates)
  qed
  show "distinct (map ID (children_of s parentID))"
  proof (cases "commentsByParent s parentID")
    case None
    then show ?thesis by (simp add: children_of_def)
  next
    case (Some ids)
    with u have "distinct ids" "set ids \<subseteq> dom (comments s)"
      unfolding unique_ids_def by blast+
    with c Some show ?thesis by (simp add: children_of_def distinct_candidates)
  qed
qed


subsection \<open>Negative limits\<close>

text \<open>
  With a negative limit the store returns no item or panics, and the resolver then
  panics at \<open>comments[:l]\<close>: no negative limit yields a page.
\<close>

lemma connection_negative:
  assumes "sint l < 0"
  shows "connection listed l = Inl SliceBoundsOutOfRange"
  using assms by (simp add: connection_def slice_def Let_def)

lemma sint_index_add_neg:
  assumes "sint (L :: 64 word) \<le> 0" and "int n < 2 ^ 63"
  shows "sint (word_of_nat n + L) = int n + sint L"
proof -
  have "sint (word_of_nat n :: 64 word) = signed_take_bit 63 (int n)"
    by (simp add: signed_of_nat)
  also have "\<dots> = int n"
    using assms(2) by (intro signed_take_bit_int_eq_self) auto
  finally have "sint (word_of_nat n + L) = signed_take_bit 63 (int n + sint L)"
    by (simp add: sint_word_add)
  also have "\<dots> = int n + sint L"
    using assms sint_ge [of L] by (intro signed_take_bit_int_eq_self) auto
  finally show ?thesis .
qed

lemma paginateComments_nonpositive:
  assumes "sint L \<le> 0" and "int (length (candidates s ids)) < 2 ^ 63"
  shows "paginateComments s ids \<lparr>Limit = L, Cursor = cur\<rparr> = Inr []
       \<or> paginateComments s ids \<lparr>Limit = L, Cursor = cur\<rparr> = Inl SliceBoundsOutOfRange"
proof (cases "start_index cur (candidates s ids) \<ge> length (candidates s ids)")
  case True
  then show ?thesis by (simp add: paginateComments_def Let_def)
next
  case False
  then have "int (start_index cur (candidates s ids)) < 2 ^ 63" using assms(2) by linarith
  from sint_index_add_neg [OF assms(1) this] False assms(1) show ?thesis
    by (auto simp: paginateComments_def Let_def slice_def)
qed

lemma Comments_negative_limit:
  assumes "sint l < 0" and "int (length (roots_of s (post_ID obj))) < 2 ^ 63"
  shows "Comments s obj (Some l) cursor = Inl SliceBoundsOutOfRange"
proof -
  have "sint l < 2 ^ 63 - 1" using assms(1) by simp
  then have "sint (l + 1) = sint l + 1" by (rule sint_succ)
  with assms(1) have n: "sint (l + 1) \<le> 0" by linarith
  have "GetCommentsByPostID s (post_ID obj) \<lparr>Limit = l + 1, Cursor = cursor\<rparr> = Inr []
      \<or> GetCommentsByPostID s (post_ID obj) \<lparr>Limit = l + 1, Cursor = cursor\<rparr>
          = Inl SliceBoundsOutOfRange"
    using paginateComments_nonpositive [OF n, of s
        "case commentsByPost s (post_ID obj) of None \<Rightarrow> [] | Some ids \<Rightarrow> ids" cursor] assms(2)
    by (simp add: GetCommentsByPostID_roots roots_of_def)
  then show ?thesis
    using connection_negative [OF assms(1), of "[]"]
    by (auto simp: Comments_def)
qed

subsection \<open>Two pages in a row\<close>

text \<open>
  C5, as the claim words it, fails for a negative limit: with \<open>limit = -1\<close> the store is
  asked for no item, \<open>hasNextPage\<close> is computed as \<open>0 > -1\<close>, and the slice
  expression \<open>comments[:l]\<close> panics.
\<close>

theorem Comments_negative_limit_panics:
  "Comments store4 post1 (Some (- 1)) None = Inl SliceBoundsOutOfRange
   \<and> roots_of store4 (post_ID post1) = [commentB, commentA]"
proof -
  have idp: "post_ID post1 = p1" by (simp add: post1_def)
  have cbp: "commentsByPost store4 p1 = Some [cB, cA]" by (simp add: store4_eq)
  have c: "candidates store4 [cB, cA] = [commentB, commentA]"
    using roots_store4 by (simp add: roots_of_def cbp)
  have g: "GetCommentsByPostID store4 p1 \<lparr>Limit = - 1 + 1, Cursor = None\<rparr> = Inr []"
    by (simp add: GetCommentsByPostID_def cbp paginateComments_def c start_index_def
        Let_def slice_def)
  have "connection [] (- 1) = Inl SliceBoundsOutOfRange"
    by (simp add: connection_def slice_def)
  with g have "Comments store4 post1 (Some (- 1)) None = Inl SliceBoundsOutOfRange"
    by (simp add: Comments_def idp)
  then show ?thesis by (simp add: idp roots_store4)
qed

text \<open>
  C5, amended. For every post whose root comments carry pairwise distinct identifiers
  and for all limits \<open>L1\<close> and \<open>L2\<close> that are not negative and for which the number of
  root comments, plus the limit, plus one, is below \<open>2 ^ 63\<close>: the first page with limit
  \<open>L1\<close> and the page with limit \<open>L2\<close> requested with the first page's \<open>endCursor\<close>
  are both returned, their concatenation is a prefix of the ordered list of root
  comments, and no comment occurs twice in it.
\<close>

theorem Comments_two_pages:
  assumes "distinct (map ID (roots_of s (post_ID obj)))"
    and "0 \<le> sint L1" and "0 \<le> sint L2"
    and "int (length (roots_of s (post_ID obj))) + sint L1 + 1 < 2 ^ 63"
    and "int (length (roots_of s (post_ID obj))) + sint L2 + 1 < 2 ^ 63"
  shows "\<exists>page1 page2.
           Comments s obj (Some L1) None = Inr page1
         \<and> Comments s obj (Some L2) (EndCursor (PageInfo page1)) = Inr page2
         \<and> map Node (Edges page1) @ map Node (Edges page2)
             = take (length (Edges page1) + length (Edges page2)) (roots_of s (post_ID obj))
         \<and> distinct (map ID (map Node (Edges page1) @ map Node (Edges page2)))"
proof -
  let ?xs = "roots_of s (post_ID obj)"
  let ?n1 = "nat (sint L1)" and ?n2 = "nat (sint L2)"
  let ?cur = "if take ?n1 ?xs = [] then None else Some (ID (last (take ?n1 ?xs)))"
  have s1: "int (start_index None ?xs) + sint L1 + 1 < 2 ^ 63"
    using assms(4) by (simp add: start_index_def)
  have "int (start_index ?cur ?xs) \<le> int (length ?xs)"
    using start_index_le [of ?cur ?xs] by simp
  then have s2: "int (start_index ?cur ?xs) + sint L2 + 1 < 2 ^ 63"
    using assms(5) by linarith
  have p1: "Comments s obj (Some L1) None = Inr (spec_page ?xs None ?n1)"
    using assms(2) s1 by (rule Comments_in_range)
  have e1: "EndCursor (PageInfo (spec_page ?xs None ?n1)) = ?cur"
    by (simp add: spec_page_def after_cursor_def Let_def)
  have p2: "Comments s obj (Some L2) ?cur = Inr (spec_page ?xs ?cur ?n2)"
    using assms(3) s2 by (rule Comments_in_range)
  have n1: "map Node (Edges (spec_page ?xs None ?n1)) = take ?n1 ?xs"
    by (simp add: spec_page_def after_cursor_def Let_def comp_def)
  have n2: "map Node (Edges (spec_page ?xs ?cur ?n2)) = take ?n2 (after_cursor ?cur ?xs)"
    by (simp add: spec_page_def Let_def comp_def)
  have l1: "length (Edges (spec_page ?xs None ?n1)) = length (take ?n1 ?xs)"
    using arg_cong [OF n1, of length] by simp
  have l2: "length (Edges (spec_page ?xs ?cur ?n2)) = length (take ?n2 (after_cursor ?cur ?xs))"
    using arg_cong [OF n2, of length] by simp
  have pre: "take ?n1 ?xs @ take ?n2 (after_cursor ?cur ?xs)
        = take (length (take ?n1 ?xs) + length (take ?n2 (after_cursor ?cur ?xs))) ?xs"
    using assms(1) by (rule two_pages_prefix)
  have "distinct (map ID (take (length (take ?n1 ?xs) + length (take ?n2 (after_cursor ?cur ?xs))) ?xs))"
    using assms(1) by (simp add: take_map [symmetric] distinct_take)
  with pre have d: "distinct (map ID (take ?n1 ?xs @ take ?n2 (after_cursor ?cur ?xs)))"
    by simp
  show ?thesis
    apply (rule exI [of _ "spec_page ?xs None ?n1"])
    apply (rule exI [of _ "spec_page ?xs ?cur ?n2"])
    using p1 p2 e1 n1 n2 l1 l2 pre d
    apply (simp only:)
    done
qed

theorem Comments_two_pages_witness:
  "distinct (map ID (roots_of store4 (post_ID post1)))
   \<and> (0 :: int) \<le> sint (1 :: go_int)
   \<and> int (length (roots_of store4 (post_ID post1))) + sint (1 :: go_int) + 1 < 2 ^ 63
   \<and> (\<exists>page1 page2.
         Comments store4 post1 (Some 1) None = Inr page1
       \<and> Comments store4 post1 (Some 1) (EndCursor (PageInfo page1)) = Inr page2
       \<and> map Node (Edges page1) @ map Node (Edges page2) = [commentB, commentA])"
proof -
  have idp: "post_ID post1 = p1" by (simp add: post1_def)
  have r: "roots_of store4 (post_ID post1) = [commentB, commentA]"
    by (simp add: idp roots_store4)
  have a: "distinct (map ID (roots_of store4 (post_ID post1)))"
    by (simp add: r commentA_def commentB_def ids_distinct)
  have b: "(0 :: int) \<le> sint (1 :: go_int)" by simp
  have c: "int (length (roots_of store4 (post_ID post1))) + sint (1 :: go_int) + 1 < 2 ^ 63"
    by (simp add: r)
  from Comments_two_pages [OF a b b c c]
  obtain page1 page2 where p:
    "Comments store4 post1 (Some 1) None = Inr page1"
    "Comments store4 post1 (Some 1) (EndCursor (PageInfo page1)) = Inr page2"
    "map Node (Edges page1) @ map Node (Edges page2)
       = take (length (Edges page1) + length (Edges page2)) (roots_of store4 (post_ID post1))"
    by blast
  have "Comments store4 post1 (Some 1) None = Inr (spec_page [commentB, commentA] None 1)"
    using Comments_in_range [of 1 None store4 post1] r by (simp add: start_index_def)
  with p(1) have e1: "page1 = spec_page [commentB, commentA] None 1" by simp
  then have c1: "EndCursor (PageInfo page1) = Some cB" "length (Edges page1) = 1"
    by (simp_all add: spec_page_def after_cursor_def commentB_def)
  have "Comments store4 post1 (Some 1) (Some cB) = Inr (spec_page [commentB, commentA] (Some cB) 1)"
    using Comments_in_range [of 1 "Some cB" store4 post1] r
    by (simp add: start_index_def commentB_def)
  with p(2) c1 have "page2 = spec_page [commentB, commentA] (Some cB) 1" by simp
  then have "length (Edges page2) = 1"
    by (simp add: spec_page_def after_cursor_def commentB_def commentA_def)
  with p(3) c1 r have "map Node (Edges page1) @ map Node (Edges page2) = [commentB, commentA]"
    by simp
  with a b c p(1,2) show ?thesis by blast
qed

section \<open>A cursor that no candidate carries\<close>

text \<open>
  In the in-memory store a cursor that is the identifier of no candidate leaves the start
  index at 0: the listing is the one without cursor, the first \<open>limit\<close> items.
\<close>

lemma start_index_unknown:
  assumes "cur \<notin> ID ` set ordered"
  shows "start_index (Some cur) ordered = 0"
  using assms by (simp add: start_index_def cursor_index_None [symmetric])

lemma paginateComments_unknown_cursor:
  assumes "cur \<notin> ID ` set (candidates s ids)"
  shows "paginateComments s ids \<lparr>Limit = L, Cursor = Some cur\<rparr>
         = paginateComments s ids \<lparr>Limit = L, Cursor = None\<rparr>"
  using start_index_unknown [OF assms]
  by (simp add: paginateComments_def start_index_def Let_def)

lemma listings_unknown_cursor:
  "cur \<notin> ID ` set (roots_of s postID) \<Longrightarrow>
     GetCommentsByPostID s postID \<lparr>Limit = L, Cursor = Some cur\<rparr>
       = GetCommentsByPostID s postID \<lparr>Limit = L, Cursor = None\<rparr>"
  "cur \<notin> ID ` set (children_of s parentID) \<Longrightarrow>
     GetCommentsByParentID s parentID \<lparr>Limit = L, Cursor = Some cur\<rparr>
       = GetCommentsByParentID s parentID \<lparr>Limit = L, Cursor = None\<rparr>"
  by (simp_all add: GetCommentsByPostID_roots GetCommentsByParentID_children roots_of_def
      children_of_def paginateComments_unknown_cursor)

lemma listings_unknown_cursor_first_items:
  assumes "cur \<notin> ID ` set (roots_of s postID)" and "0 \<le> sint L"
  shows "GetCommentsByPostID s postID \<lparr>Limit = L, Cursor = Some cur\<rparr>
         = Inr (take (nat (sint L)) (roots_of s postID))"
proof -
  have "int (start_index None (roots_of s postID)) + sint L < 2 ^ 63"
    using sint_lt [of L] by (simp add: start_index_def)
  from GetCommentsByPostID_in_range [OF assms(2) this]
  show ?thesis using assms(1) by (simp add: listings_unknown_cursor after_cursor_def)
qed

lemma first_post_two:
  "first_post \<lparr>posts_table = [post1, post0\<lparr>post_ID := p2, post_CreatedAt := 101\<rparr>],
               comments_table = cs\<rparr> p1 = Some post1"
  "first_post \<lparr>posts_table = [post1, post0\<lparr>post_ID := p2, post_CreatedAt := 101\<rparr>],
               comments_table = cs\<rparr> p2 = Some (post0\<lparr>post_ID := p2, post_CreatedAt := 101\<rparr>)"
  by (simp_all add: first_post_def post1_def ids_distinct)

lemma db3_eq:
  "db3 = \<lparr>posts_table = [post1, post0\<lparr>post_ID := p2, post_CreatedAt := 101\<rparr>],
          comments_table = [commentA, pg_commentB, pg_commentX]\<rparr>"
proof -
  have e: "CommentsEnabled post1" "CommentsEnabled (post0\<lparr>post_ID := p2, post_CreatedAt := 101\<rparr>)"
    by (simp_all add: post1_def post0_def)
  have d1: "snd (pg_CreateComment db2 cA 110 draft0)
      = \<lparr>posts_table = [post1, post0\<lparr>post_ID := p2, post_CreatedAt := 101\<rparr>],
          comments_table = [commentA]\<rparr>"
    by (simp add: pg_CreateComment_def db2_def draft0_def TrimSpace_hi first_post_two e
        commentA_def Let_def)
  have d2: "snd (pg_CreateComment \<lparr>posts_table = [post1, post0\<lparr>post_ID := p2, post_CreatedAt := 101\<rparr>],
          comments_table = [commentA]\<rparr> cB 120 draft0)
      = \<lparr>posts_table = [post1, post0\<lparr>post_ID := p2, post_CreatedAt := 101\<rparr>],
          comments_table = [commentA, pg_commentB]\<rparr>"
    by (simp add: pg_CreateComment_def draft0_def TrimSpace_hi first_post_two e
        pg_commentB_def Let_def)
  have d3: "snd (pg_CreateComment \<lparr>posts_table = [post1, post0\<lparr>post_ID := p2, post_CreatedAt := 101\<rparr>],
          comments_table = [commentA, pg_commentB]\<rparr> cX 130 (draft0\<lparr>PostID := p2\<rparr>))
      = \<lparr>posts_table = [post1, post0\<lparr>post_ID := p2, post_CreatedAt := 101\<rparr>],
          comments_table = [commentA, pg_commentB, pg_commentX]\<rparr>"
    by (simp add: pg_CreateComment_def draft0_def TrimSpace_hi first_post_two e
        pg_commentX_def Let_def)
  show ?thesis
    by (simp only: db3_def d1 d2 d3)
qed


text \<open>
  C7. The PostgreSQL store looks the cursor up among all comments, not among the
  candidates. Listing the root comments of the first post with the identifier of a
  comment of the second post as cursor keeps the rows created after that comment, here
  none, where the listing without cursor returns both root comments.
\<close>

theorem pg_foreign_cursor_filters:
  "pg_GetCommentsByPostID db3 p1 \<lparr>Limit = 10, Cursor = None\<rparr> = [commentA, pg_commentB]
   \<and> cX \<notin> ID ` set [commentA, pg_commentB]
   \<and> pg_GetCommentsByPostID db3 p1 \<lparr>Limit = 10, Cursor = Some cX\<rparr> = []"
proof -
  have rows: "filter (\<lambda>c. PostID c = p1 \<and> ParentID c = None) (comments_table db3)
      = [commentA, pg_commentB]"
    by (simp add: db3_eq commentA_def pg_commentB_def pg_commentX_def draft0_def ids_distinct)
  have cur: "first_comment db3 cX = Some pg_commentX"
    by (simp add: first_comment_def db3_eq commentA_def pg_commentB_def pg_commentX_def ids_distinct)
  have a: "pg_GetCommentsByPostID db3 p1 \<lparr>Limit = 10, Cursor = None\<rparr> = [commentA, pg_commentB]"
    by (simp add: pg_GetCommentsByPostID_def rows pg_page_def sql_limit_def sortByCreatedAt_def
        commentA_def pg_commentB_def)
  have b: "cX \<notin> ID ` set [commentA, pg_commentB]"
    by (simp add: commentA_def pg_commentB_def ids_distinct)
  have c: "pg_GetCommentsByPostID db3 p1 \<lparr>Limit = 10, Cursor = Some cX\<rparr> = []"
    by (simp add: pg_GetCommentsByPostID_def rows pg_page_def cur sql_limit_def sortByCreatedAt_def
        commentA_def pg_commentB_def pg_commentX_def)
  from a b c show ?thesis by simp
qed


section \<open>The order of a listing\<close>

lemma sorted_candidates: "sorted (map CreatedAt (candidates s ids))"
  by (simp add: candidates_def sortByCreatedAt_def)

lemma sorted_slice:
  assumes "sorted (map f xs)" and "slice xs lo hi = Inr ys"
  shows "sorted (map f ys)"
proof -
  from assms(2) have "ys = take (nat hi - nat lo) (drop (nat lo) xs)"
    by (auto simp: slice_def split: if_splits)
  then have "map f ys = take (nat hi - nat lo) (drop (nat lo) (map f xs))"
    by (simp add: take_map drop_map)
  with assms(1) show ?thesis
    by (simp add: sorted_wrt_take sorted_wrt_drop)
qed

lemma sorted_paginateComments:
  assumes "paginateComments s ids args = Inr xs"
  shows "sorted (map CreatedAt xs)"
proof (cases "start_index (Cursor args) (candidates s ids) \<ge> length (candidates s ids)")
  case True
  with assms show ?thesis by (simp add: paginateComments_def Let_def)
next
  case False
  with assms obtain lo hi where "slice (candidates s ids) lo hi = Inr xs"
    by (simp add: paginateComments_def Let_def)
  with sorted_candidates show ?thesis by (rule sorted_slice)
qed

lemma GetCommentsByParentIDs_loop_lookup:
  "GetCommentsByParentIDs_loop s ps m p
     = (if p \<in> set ps then Some (children_of s p) else m p)"
  by (induction ps arbitrary: m) auto

lemma GetCommentsByParentIDs_lookup:
  "GetCommentsByParentIDs s ps p = (if p \<in> set ps then Some (children_of s p) else None)"
  by (simp add: GetCommentsByParentIDs_def GetCommentsByParentIDs_loop_lookup)

lemma store3_roots: "candidates store3 [cB, cA] = [commentB, commentA]"
  by (simp add: candidates_def lookup_all_def sortByCreatedAt_def store3_eq
      map_filter_simps ids_distinct commentA_def commentB_def)


text \<open>
  C8, as the claim words it, fails: two root comments created at the same instant are
  listed in the order of their creation, the one with the greater identifier first. The
  comparison function of the sort reads the creation time only.
\<close>

theorem roots_tie_not_ordered_by_id:
  "GetCommentsByPostID store3 p1 \<lparr>Limit = 10, Cursor = None\<rparr> = Inr [commentB, commentA]
   \<and> CreatedAt commentB = CreatedAt commentA
   \<and> string_less (ID commentA) (ID commentB)
   \<and> \<not> sorted_wrt time_then_id [commentB, commentA]"
proof -
  have cbp: "commentsByPost store3 p1 = Some [cB, cA]" by (simp add: store3_eq)
  have g: "GetCommentsByPostID store3 p1 \<lparr>Limit = 10, Cursor = None\<rparr> = Inr [commentB, commentA]"
    by (simp add: GetCommentsByPostID_def cbp paginateComments_def store3_roots start_index_def
        Let_def slice_def)
  have t: "CreatedAt commentB = CreatedAt commentA" by (simp add: commentA_def commentB_def)
  have l: "string_less (ID commentA) (ID commentB)"
    by (simp add: commentA_def commentB_def cA_def cB_def)
  have n: "\<not> string_less (ID commentB) (ID commentA)"
    by (simp add: commentA_def commentB_def cA_def cB_def)
  have "ID commentB \<noteq> ID commentA" by (simp add: commentA_def commentB_def ids_distinct)
  with t n have "\<not> time_then_id commentB commentA" by (simp add: time_then_id_def)
  with g t l show ?thesis by simp
qed


text \<open>
  C8, amended. For every post and every parent comment, the root comments of the post
  and the children of the parent returned by a listing, paginated or batched, are sorted
  ascending by creation time; the identifier takes no part in the order.
\<close>

theorem listings_sorted_by_CreatedAt:
  "(GetCommentsByPostID s postID args = Inr xs \<longrightarrow> sorted (map CreatedAt xs))
   \<and> (GetCommentsByParentID s parentID args' = Inr ys \<longrightarrow> sorted (map CreatedAt ys))
   \<and> (GetCommentsByParentIDs s parentIDs p = Some zs \<longrightarrow> sorted (map CreatedAt zs))"
proof -
  have x: "sorted (map CreatedAt xs)" if "GetCommentsByPostID s postID args = Inr xs"
    using that sorted_paginateComments
    by (auto simp: GetCommentsByPostID_def split: option.splits)
  have y: "sorted (map CreatedAt ys)" if "GetCommentsByParentID s parentID args' = Inr ys"
    using that sorted_paginateComments
    by (auto simp: GetCommentsByParentID_def split: option.splits)
  have z: "sorted (map CreatedAt zs)" if "GetCommentsByParentIDs s parentIDs p = Some zs"
    using that sorted_candidates
    by (auto simp: GetCommentsByParentIDs_lookup children_of_def split: if_splits)
  from x y z show ?thesis by blast
qed

theorem listings_sorted_by_CreatedAt_witness:
  "GetCommentsByPostID store4 p1 \<lparr>Limit = 10, Cursor = None\<rparr> = Inr [commentB, commentA]
   \<and> GetCommentsByParentID store4 cB \<lparr>Limit = 10, Cursor = None\<rparr> = Inr [commentX]
   \<and> GetCommentsByParentIDs store4 [cB] cB = Some [commentX]
   \<and> sorted (map CreatedAt [commentB, commentA])
   \<and> sorted (map CreatedAt [commentX])"
proof -
  have a: "GetCommentsByPostID store4 p1 \<lparr>Limit = 10, Cursor = None\<rparr> = Inr [commentB, commentA]"
    using GetCommentsByPostID_in_range [of 10 None store4 p1]
    by (simp add: roots_store4 start_index_def after_cursor_def)
  have b: "GetCommentsByParentID store4 cB \<lparr>Limit = 10, Cursor = None\<rparr> = Inr [commentX]"
    using GetCommentsByParentID_in_range [of 10 None store4 cB]
    by (simp add: children_store4 start_index_def after_cursor_def)
  have c: "GetCommentsByParentIDs store4 [cB] cB = Some [commentX]"
    by (simp add: GetCommentsByParentIDs_def children_store4)
  note t = listings_sorted_by_CreatedAt [of store4 p1 "\<lparr>Limit = 10, Cursor = None\<rparr>"
      "[commentB, commentA]" cB "\<lparr>Limit = 10, Cursor = None\<rparr>" "[commentX]" "[cB]" cB "[commentX]"]
  from t a have d: "sorted (map CreatedAt [commentB, commentA])" by blast
  from t b have e: "sorted (map CreatedAt [commentX])" by blast
  from a b c d e show ?thesis by blast
qed

section \<open>The batch lookup\<close>

text \<open>
  The in-memory store returns one entry for each requested parent, the empty list for a
  parent without children, each list in creation order and equal to what the listing of
  that parent returns when its limit does not cut it.
\<close>

lemma GetCommentsByParentIDs_entries:
  assumes "distinct parentIDs"
  shows "card (dom (GetCommentsByParentIDs s parentIDs)) = length parentIDs
       \<and> dom (GetCommentsByParentIDs s parentIDs) = set parentIDs
       \<and> (\<forall>p \<in> set parentIDs.
            GetCommentsByParentIDs s parentIDs p = Some (children_of s p)
          \<and> sorted (map CreatedAt (children_of s p))
          \<and> (\<forall>L. int (length (children_of s p)) \<le> sint L \<longrightarrow>
                GetCommentsByParentID s p \<lparr>Limit = L, Cursor = None\<rparr> = Inr (children_of s p)))"
proof -
  have d: "dom (GetCommentsByParentIDs s parentIDs) = set parentIDs"
    by (auto simp: GetCommentsByParentIDs_lookup dom_def)
  have c: "card (dom (GetCommentsByParentIDs s parentIDs)) = length parentIDs"
    using assms by (simp add: d distinct_card)
  have u: "GetCommentsByParentID s p \<lparr>Limit = L, Cursor = None\<rparr> = Inr (children_of s p)"
    if "int (length (children_of s p)) \<le> sint L" for p L
  proof -
    have r: "0 \<le> sint L" using that by linarith
    have "int (start_index None (children_of s p)) + sint L < 2 ^ 63"
      using sint_lt [of L] by (simp add: start_index_def)
    from GetCommentsByParentID_in_range [OF r this] that
    show ?thesis by (simp add: after_cursor_def)
  qed
  from c d u show ?thesis
    by (simp add: GetCommentsByParentIDs_lookup sorted_candidates children_of_def)
qed


text \<open>
  C6. The PostgreSQL store builds its map from the rows the query returns, so a
  requested parent without children gets no entry: for the one existing, childless
  comment \<open>cA\<close> the map is empty, where the in-memory store maps it to the empty list.
\<close>

theorem pg_GetCommentsByParentIDs_omits_childless:
  "first_comment db3 cA = Some commentA
   \<and> pg_GetCommentsByParentIDs db3 [cA] cA = None
   \<and> dom (pg_GetCommentsByParentIDs db3 [cA]) = {}
   \<and> GetCommentsByParentIDs store4 [cA] cA = Some []"
proof -
  have a: "first_comment db3 cA = Some commentA"
    by (simp add: first_comment_def db3_eq commentA_def)
  have rows: "filter (\<lambda>c. case ParentID c of None \<Rightarrow> False | Some p \<Rightarrow> p \<in> set [cA])
      (comments_table db3) = []"
    by (simp add: db3_eq commentA_def pg_commentB_def pg_commentX_def draft0_def)
  have b: "pg_GetCommentsByParentIDs db3 [cA] = Map.empty"
    by (simp add: pg_GetCommentsByParentIDs_def rows sortByCreatedAt_def)
  have "commentsByParent store4 cA = None" by (simp add: store4_eq ids_distinct)
  then have c: "GetCommentsByParentIDs store4 [cA] cA = Some []"
    by (simp add: GetCommentsByParentIDs_lookup children_of_def)
  from a b c show ?thesis by simp
qed

section \<open>Listing under a target that does not exist\<close>

lemma indexed_CreateComment:
  assumes "indexed s"
  shows "indexed (snd (CreateComment s uuid now c))"
proof (cases "fst (CreateComment s uuid now c)")
  case (Inl e)
  then have "snd (CreateComment s uuid now c) = s"
    by (auto simp: CreateComment_def Let_def split: option.splits if_splits)
  with assms show ?thesis by simp
next
  case (Inr c')
  then obtain post where post: "posts s (PostID c) = Some post"
    by (auto simp: CreateComment_def Let_def split: option.splits if_splits)
  show ?thesis
  proof (cases "ParentID c")
    case None
    with Inr post assms show ?thesis
      by (auto simp: CreateComment_def Let_def indexed_def append_at_def
          split: option.splits if_splits)
  next
    case (Some p)
    with Inr have "comments s p \<noteq> None"
      by (auto simp: CreateComment_def Let_def split: option.splits if_splits)
    with Some Inr post assms show ?thesis
      by (auto simp: CreateComment_def Let_def indexed_def append_at_def
          split: option.splits if_splits)
  qed
qed

lemma reachable_indexed: "reachable s \<Longrightarrow> indexed s"
proof (induction rule: reachable.induct)
  case reachable_New
  show ?case by (simp add: indexed_def New_def)
next
  case (reachable_CreatePost s uuid now post)
  then show ?case by (auto simp: indexed_def CreatePost_def Let_def)
next
  case (reachable_ToggleComments s postID enable)
  then show ?case
    by (auto simp: indexed_def ToggleComments_def Let_def split: option.splits)
next
  case (reachable_CreateComment s uuid now comment)
  then show ?case by (simp add: indexed_CreateComment)
qed


lemma reachable_store4: "reachable store4"
  unfolding store4_def store3_def store2_def store1_def
  by (intro reachable.intros)

lemma listing_of_nothing:
  "roots_of s postID = [] \<Longrightarrow> GetCommentsByPostID s postID args = Inr []"
  "children_of s parentID = [] \<Longrightarrow> GetCommentsByParentID s parentID args = Inr []"
  by (simp_all add: GetCommentsByPostID_roots GetCommentsByParentID_children roots_of_def
      children_of_def paginateComments_def Let_def)

text \<open>
  C10. In every store the operations can build, listing the root comments of an
  identifier that is no post's, and listing the children of an identifier that is no
  comment's, succeeds with the empty list, whatever the pagination arguments. That is
  also the result of listing under a target that has no comments, so the two cannot be
  told apart.
\<close>

theorem listing_missing_target_empty:
  assumes "reachable s"
  shows "(posts s postID = None \<longrightarrow> GetCommentsByPostID s postID args = Inr [])
       \<and> (comments s parentID = None \<longrightarrow> GetCommentsByParentID s parentID args = Inr [])
       \<and> (roots_of s postID' = [] \<longrightarrow> GetCommentsByPostID s postID' args = Inr [])
       \<and> (children_of s parentID' = [] \<longrightarrow> GetCommentsByParentID s parentID' args = Inr [])"
proof -
  from assms have i: "indexed s" by (rule reachable_indexed)
  have a: "commentsByPost s postID = None" if "posts s postID = None"
    using i that by (auto simp: indexed_def)
  have b: "commentsByParent s parentID = None" if "comments s parentID = None"
    using i that by (auto simp: indexed_def)
  from a b listing_of_nothing [of s postID' args] listing_of_nothing [of s parentID' args]
  show ?thesis
    by (simp add: GetCommentsByPostID_def GetCommentsByParentID_def)
qed

theorem listing_missing_target_empty_witness:
  "reachable store4
   \<and> posts store4 p2 = None \<and> comments store4 p2 = None
   \<and> GetCommentsByPostID store4 p2 \<lparr>Limit = 10, Cursor = None\<rparr> = Inr []
   \<and> GetCommentsByParentID store4 p2 \<lparr>Limit = 10, Cursor = None\<rparr> = Inr []
   \<and> comments store4 cA = Some commentA \<and> children_of store4 cA = []
   \<and> GetCommentsByParentID store4 cA \<lparr>Limit = 10, Cursor = None\<rparr> = Inr []"
proof -
  have a: "posts store4 p2 = None" by (simp add: store4_eq ids_distinct)
  have b: "comments store4 p2 = None"
    by (simp add: store4_eq cA_def cB_def cX_def p2_def)
  have c: "comments store4 cA = Some commentA" by (simp add: store4_eq ids_distinct)
  have d: "children_of store4 cA = []" by (simp add: children_of_def store4_eq ids_distinct)
  have e: "roots_of store4 p2 = []" by (simp add: roots_of_def store4_eq ids_distinct)
  note t = listing_missing_target_empty [OF reachable_store4,
      of p2 "\<lparr>Limit = 10, Cursor = None\<rparr>" p2 p2 cA]
  from t a have f: "GetCommentsByPostID store4 p2 \<lparr>Limit = 10, Cursor = None\<rparr> = Inr []"
    by blast
  from t b have g: "GetCommentsByParentID store4 p2 \<lparr>Limit = 10, Cursor = None\<rparr> = Inr []"
    by blast
  from t d have h: "GetCommentsByParentID store4 cA \<lparr>Limit = 10, Cursor = None\<rparr> = Inr []"
    by blast
  from t e have "GetCommentsByPostID store4 p2 \<lparr>Limit = 10, Cursor = None\<rparr> = Inr []"
    by blast
  with reachable_store4 a b c d f g h show ?thesis by blast
qed

section \<open>The mutation and the observer\<close>

text \<open>
  Publishing never grows a buffer beyond the capacity of its channel, and leaves a full
  buffer as it is: the comment is dropped for that subscriber.
\<close>

lemma try_send_capacity: "length buffer \<le> 1 \<Longrightarrow> length (try_send c buffer) \<le> 1"
  by (simp add: try_send_def)

lemma try_send_full: "length buffer = 1 \<Longrightarrow> try_send c buffer = buffer"
  by (simp add: try_send_def)

lemma publish_other_posts: "k \<noteq> PostID c \<Longrightarrow> subs (publish obs c) k = subs obs k"
  by (simp add: publish_def split: option.splits)

text \<open>
  C9. What \<open>CreateComment\<close> of the mutation resolver returns, and the store it leaves,
  are those of the store's \<open>CreateComment\<close> on the draft: they are the same for any two
  observers, with subscribers or without, with room in their buffers or without.
\<close>

theorem mutation_CreateComment_ignores_observer:
  "fst (mutation_CreateComment s obs uuid now input)
     = fst (mutation_CreateComment s obs' uuid now input)
   \<and> fst (snd (mutation_CreateComment s obs uuid now input))
     = fst (snd (mutation_CreateComment s obs' uuid now input))
   \<and> fst (mutation_CreateComment s obs uuid now input)
     = fst (CreateComment s uuid now (draft_of input))
   \<and> fst (snd (mutation_CreateComment s obs uuid now input))
     = snd (CreateComment s uuid now (draft_of input))"
proof -
  obtain r s' where c: "CreateComment s uuid now (draft_of input) = (r, s')"
    by (cases "CreateComment s uuid now (draft_of input)")
  have "fst (mutation_CreateComment s o1 uuid now input) = r
      \<and> fst (snd (mutation_CreateComment s o1 uuid now input)) = s'" for o1
    using c by (cases r) (simp_all add: mutation_CreateComment_def)
  with c show ?thesis by simp
qed

section \<open>Failed creation leaves the store as it was\<close>

text \<open>
  C2. For every store and every draft: when \<open>CreateComment\<close> returns an error (post not
  found, comments disabled, content too long or empty, parent not found), the store after
  the call is the store before it: the post map, the comment map and both child indexes
  are unchanged.
\<close>

theorem CreateComment_error_store_unchanged:
  assumes "fst (CreateComment s uuid now comment) = Inl e"
  shows "snd (CreateComment s uuid now comment) = s
       \<and> posts (snd (CreateComment s uuid now comment)) = posts s
       \<and> comments (snd (CreateComment s uuid now comment)) = comments s
       \<and> commentsByPost (snd (CreateComment s uuid now comment)) = commentsByPost s
       \<and> commentsByParent (snd (CreateComment s uuid now comment)) = commentsByParent s"
proof -
  have "snd (CreateComment s uuid now comment) = s"
    using assms
    by (auto simp: CreateComment_def Let_def split: option.splits if_splits)
  then show ?thesis by simp
qed

theorem CreateComment_error_store_unchanged_witness:
  "fst (CreateComment New ''c1'' 7 draft0) = Inl PostNotFound
   \<and> snd (CreateComment New ''c1'' 7 draft0) = New"
proof -
  have h: "fst (CreateComment New ''c1'' 7 draft0) = Inl PostNotFound"
    by (simp add: CreateComment_def New_def draft0_def)
  from CreateComment_error_store_unchanged [OF h] h show ?thesis by simp
qed

end
